theory Spec2Isabelle
  imports Main "HOL-Library.Sublist"
begin

section \<open>Data model (types.ts)\<close>

text \<open>
  A \<open>RuleEntry\<close> is one run of a clue: \<open>count\<close> tiles of colour \<open>val\<close>. Run lengths are
  array lengths in the source (\<open>new Array(count)\<close>), hence natural numbers here; colours
  are arbitrary integers, the documentation asking for nonnegative ones.
\<close>

datatype RuleEntry = RuleEntry (count: nat) (val: int)

type_synonym Rule = "RuleEntry list"

record Rules =
  column :: "Rule list"
  row :: "Rule list"

text \<open>A move sets the tile in row \<open>tile_x\<close>, column \<open>tile_y\<close> to the colour \<open>nxt\<close>
  (the source's \<open>move.tile.x\<close>, \<open>move.tile.y\<close>, \<open>move.next\<close>).\<close>

datatype Move = Move (tile_x: nat) (tile_y: nat) (nxt: int)

type_synonym Line = "int list"

type_synonym Board = "int list list"

record Solution =
  board :: Board
  solved :: bool
  unsolved_rows :: "nat list"
  unsolved_columns :: "nat list"

text \<open>The two things the solver can throw: its own \<open>SolveError\<close> (message, unsolved row
  indices, unsolved column indices), and the runtime's \<open>TypeError\<close> on reading a property
  of \<open>undefined\<close>.\<close>

datatype js_error = TypeError | SolveError string "nat list" "nat list"

text \<open>Reading an array element: \<open>None\<close> is JavaScript's \<open>undefined\<close> of an index out of range.\<close>

definition js_nth :: "'a list \<Rightarrow> nat \<Rightarrow> 'a option" where
  "js_nth xs i = (if i < length xs then Some (xs ! i) else None)"

section \<open>Utilities (utils.ts)\<close>

text \<open>\<open>count(n, map)\<close>: the array \<open>[map(0), ..., map(n - 1)]\<close>.\<close>

definition count_arr :: "nat \<Rightarrow> (nat \<Rightarrow> 'a) \<Rightarrow> 'a list" where
  "count_arr n f = map f [0..<n]"

text \<open>
  \<open>choose(max, pick, start)\<close>, named \<open>choose_combs\<close> here (\<open>choose\<close> is the binomial
  coefficient of HOL). \<open>max\<close> may be negative (a clue too long for its line);
  \<open>start\<close> is \<open>0\<close> at the outer call and \<open>i + 1\<close> below, \<open>pick\<close> is a clue's length.
  The loop \<open>for (i = start; i < max - 1; i++)\<close> runs over \<open>[start..<nat (mx - 1)]\<close>.
\<close>

fun choose_combs :: "int \<Rightarrow> nat \<Rightarrow> nat \<Rightarrow> nat list list" where
  "choose_combs mx 0 start = []"
| "choose_combs mx (Suc 0) start =
     count_arr (nat (max (mx - int start) 0)) (\<lambda>i. [start + i])"
| "choose_combs mx (Suc (Suc p)) start =
     concat (map (\<lambda>i. map ((#) i) (choose_combs mx (Suc p) (i + 1))) [start..<nat (mx - 1)])"

section \<open>Line candidate generator\<close>

datatype TaggedEntry = TaggedEntry (t_count: nat) (t_val: int) (same: bool)

text \<open>An element of the \<open>slots\<close> array: \<open>undefined\<close>, a tagged run, or a hole of a sparse
  array (what a store past the end would leave behind; \<open>flatMap\<close> skips holes).\<close>

datatype Slot = Hole | Undefined | Run TaggedEntry

definition isSameColorAsPrevious :: "Rule \<Rightarrow> nat \<Rightarrow> bool" where
  "isSameColorAsPrevious rule i =
     (case (if i = 0 then None else js_nth rule (i - 1)) of
        None \<Rightarrow> False
      | Some prev \<Rightarrow> val prev = val (rule ! i))"

definition taggedRule :: "Rule \<Rightarrow> TaggedEntry list" where
  "taggedRule rule =
     map (\<lambda>(i, r). TaggedEntry (count r) (val r) (isSameColorAsPrevious rule i))
       (enumerate 0 rule)"

text \<open>\<open>slots[slot] = v\<close>: in range it overwrites, past the end it extends the array,
  leaving holes.\<close>

definition js_store :: "Slot list \<Rightarrow> nat \<Rightarrow> Slot \<Rightarrow> Slot list" where
  "js_store xs i v =
     (if i < length xs then xs[i := v]
      else xs @ replicate (i - length xs) Hole @ [v])"

definition slotCells :: "Slot \<Rightarrow> Line" where
  "slotCells s =
     (case s of
        Hole \<Rightarrow> []
      | Undefined \<Rightarrow> [- 1]
      | Run t \<Rightarrow>
          (let v = count_arr (t_count t) (\<lambda>_. t_val t)
           in if same t then (- 1) # v else v))"

text \<open>The body of \<open>arrangements.map((a) => ...)\<close>: one arrangement made into a line.\<close>

definition arrangementLine :: "int \<Rightarrow> TaggedEntry list \<Rightarrow> nat list \<Rightarrow> Line" where
  "arrangementLine totalSlots tagged a =
     (let slots0 = count_arr (nat totalSlots) (\<lambda>_. Undefined);
          slots = fold (\<lambda>(i, slot) slots.
                     js_store slots slot
                       (case js_nth tagged i of None \<Rightarrow> Undefined | Some t \<Rightarrow> Run t))
                    (enumerate 0 a) slots0
      in concat (map slotCells slots))"

definition generateLineSolns :: "nat \<Rightarrow> Rule \<Rightarrow> Line list" where
  "generateLineSolns lineLength rule =
     (if length rule = 0 then [count_arr lineLength (\<lambda>_. - 1)]
      else
        let nGroups = length rule;
            tagged = taggedRule rule;
            mandatorySpaces = length (filter same tagged);
            sumOfColoredSpaces = foldl (\<lambda>a r. a + count r) 0 rule;
            freeSpaces = int lineLength - int mandatorySpaces - int sumOfColoredSpaces;
            totalSlots = freeSpaces + int nGroups;
            arrangements = choose_combs totalSlots nGroups 0
        in map (arrangementLine totalSlots tagged) arrangements)"

section \<open>Move extractor\<close>

definition allEqualAt :: "Line list \<Rightarrow> nat \<Rightarrow> bool" where
  "allEqualAt lines i =
     (case lines of
        [] \<Rightarrow> True
      | l0 # _ \<Rightarrow> list_all (\<lambda>n. js_nth n i = js_nth l0 i) lines)"

text \<open>\<open>lines[0].length\<close> on an empty candidate set reads a property of \<open>undefined\<close>:
  a \<open>TypeError\<close>.\<close>

definition findValidMoves ::
  "Line list \<Rightarrow> nat list \<Rightarrow> (nat \<Rightarrow> int \<Rightarrow> Move) \<Rightarrow> js_error + Move list" where
  "findValidMoves lines indices solnMapper =
     (case lines of
        [] \<Rightarrow> Inl TypeError
      | l0 # _ \<Rightarrow>
          Inr (concat (map (\<lambda>i.
                 if \<not> List.member indices i then []
                 else if allEqualAt lines i then [solnMapper i (l0 ! i)]
                 else [])
               [0..<length l0])))"

definition findMovesFromCol :: "nat \<Rightarrow> nat list \<Rightarrow> Line list \<Rightarrow> js_error + Move list" where
  "findMovesFromCol y unsolvedX lines = findValidMoves lines unsolvedX (\<lambda>x n. Move x y n)"

definition findMovesFromRow :: "nat \<Rightarrow> nat list \<Rightarrow> Line list \<Rightarrow> js_error + Move list" where
  "findMovesFromRow x unsolvedY lines = findValidMoves lines unsolvedY (\<lambda>y n. Move x y n)"

definition isLineConflict :: "Line list \<Rightarrow> bool" where
  "isLineConflict solns = (length solns = 0)"

definition isLineSolved :: "Line list \<Rightarrow> bool" where
  "isLineSolved solns = (length solns = 1)"

section \<open>Pruner\<close>

datatype Dim = DimX | DimY

definition tile :: "Dim \<Rightarrow> Move \<Rightarrow> nat" where
  "tile d m = (case d of DimX \<Rightarrow> tile_x m | DimY \<Rightarrow> tile_y m)"

definition filterMoves :: "Dim \<Rightarrow> nat \<Rightarrow> Move list \<Rightarrow> Move list" where
  "filterMoves d i moves = filter (\<lambda>m. tile d m = i) moves"

definition movesForCol :: "nat \<Rightarrow> Move list \<Rightarrow> Move list" where
  "movesForCol y moves = filterMoves DimY y moves"

definition movesForRow :: "nat \<Rightarrow> Move list \<Rightarrow> Move list" where
  "movesForRow x moves = filterMoves DimX x moves"

text \<open>A \<open>PruneResult\<close>: the surviving candidates and how many were removed.\<close>

definition pruneByMoves :: "Dim \<Rightarrow> Line list \<Rightarrow> Move list \<Rightarrow> Line list \<times> int" where
  "pruneByMoves d solns moves =
     (let initialCount = length solns;
          newSolns = filter (\<lambda>soln. list_all (\<lambda>m. js_nth soln (tile d m) = Some (nxt m)) moves)
                       solns
      in (newSolns, int initialCount - int (length newSolns)))"

definition pruneColByMoves :: "Line list \<Rightarrow> Move list \<Rightarrow> Line list \<times> int" where
  "pruneColByMoves solns moves = pruneByMoves DimX solns moves"

definition pruneRowByMoves :: "Line list \<Rightarrow> Move list \<Rightarrow> Line list \<times> int" where
  "pruneRowByMoves solns moves = pruneByMoves DimY solns moves"

text \<open>A colour set holds what \<open>soln[i]\<close> evaluates to, \<open>undefined\<close> included.\<close>

definition getPossibleColors :: "Line list \<Rightarrow> nat \<Rightarrow> int option set" where
  "getPossibleColors solns i = fold (\<lambda>soln colorSet. insert (js_nth soln i) colorSet) solns {}"

definition pruneByColors :: "Line list \<Rightarrow> int option set \<Rightarrow> nat \<Rightarrow> Line list \<times> int" where
  "pruneByColors solns allowedColors i =
     (let initialLength = length solns;
          filteredSolns = filter (\<lambda>soln. js_nth soln i \<in> allowedColors) solns
      in (filteredSolns, int initialLength - int (length filteredSolns)))"

text \<open>One step of the mutual pruning of \<open>generateMoves\<close>, at the intersection of row \<open>x\<close>
  and column \<open>y\<close>: the surviving row candidates, the surviving column candidates and the
  number removed (\<open>colPruned + rowPruned\<close>).\<close>

definition pruneIntersection ::
  "Line list \<Rightarrow> Line list \<Rightarrow> nat \<Rightarrow> nat \<Rightarrow> Line list \<times> Line list \<times> int" where
  "pruneIntersection rowSolns0 colSolns0 x y =
     (let colColors = getPossibleColors colSolns0 x;
          rowColors = getPossibleColors rowSolns0 y;
          combinedPossibleColors = colColors \<inter> rowColors;
          (colSolns, colPruned) = pruneByColors colSolns0 combinedPossibleColors x;
          (rowSolns, rowPruned) = pruneByColors rowSolns0 combinedPossibleColors y
      in (rowSolns, colSolns, colPruned + rowPruned))"

section \<open>Constraint store\<close>

text \<open>
  \<open>rowMap\<close> and \<open>colMap\<close> are JavaScript objects whose keys are line indices, each
  holding \<open>{x, solns}\<close> (or \<open>{y, solns}\<close>). Such an object is a list indexed by the key,
  \<open>None\<close> where the key has been deleted; \<open>Object.keys\<close> and \<open>Object.values\<close>
  enumerate integer keys in ascending order.
\<close>

type_synonym SolutionMap = "Line list option list"

definition values_of :: "SolutionMap \<Rightarrow> (nat \<times> Line list) list" where
  "values_of m =
     concat (map (\<lambda>(i, e). case e of None \<Rightarrow> [] | Some solns \<Rightarrow> [(i, solns)]) (enumerate 0 m))"

definition keys :: "SolutionMap \<Rightarrow> nat list" where
  "keys m = map fst (values_of m)"

text \<open>\<open>rowMap[x]\<close>: \<open>None\<close> is \<open>undefined\<close>, whose \<open>.solns\<close> is a \<open>TypeError\<close>.\<close>

definition lookup :: "SolutionMap \<Rightarrow> nat \<Rightarrow> Line list option" where
  "lookup m i = (case js_nth m i of None \<Rightarrow> None | Some e \<Rightarrow> e)"

record SolverState =
  rowMap :: SolutionMap
  colMap :: SolutionMap
  unsolvedRowCount :: int
  unsolvedColCount :: int

section \<open>Solver loop\<close>

definition generateEmptyBoardFor :: "Rules \<Rightarrow> Board" where
  "generateEmptyBoardFor rules =
     count_arr (length (column rules)) (\<lambda>_. count_arr (length (row rules)) (\<lambda>_. 0))"

text \<open>Decimal digits of an index, for the template strings of the error messages.\<close>

fun string_of_nat :: "nat \<Rightarrow> string" where
  "string_of_nat n =
     (if n < 10 then [''0123456789'' ! n]
      else string_of_nat (n div 10) @ [''0123456789'' ! (n mod 10)])"

text \<open>\<open>lines.flatMap(f)\<close> where \<open>f\<close> may throw: the first exception ends the traversal.\<close>

fun collectMoves ::
  "(nat \<Rightarrow> Line list \<Rightarrow> js_error + Move list) \<Rightarrow> (nat \<times> Line list) list \<Rightarrow> js_error + Move list" where
  "collectMoves f [] = Inr []"
| "collectMoves f ((i, solns) # rest) =
     (case f i solns of
        Inl e \<Rightarrow> Inl e
      | Inr ms \<Rightarrow>
          (case collectMoves f rest of
             Inl e \<Rightarrow> Inl e
           | Inr ms' \<Rightarrow> Inr (ms @ ms')))"

definition extractMoves :: "SolverState \<Rightarrow> js_error + (Move list \<times> Move list)" where
  "extractMoves st =
     (let unsolvedRows = values_of (rowMap st);
          unsolvedCols = values_of (colMap st);
          unsolvedRowIdxs = keys (rowMap st);
          unsolvedColIdxs = keys (colMap st)
      in case collectMoves (\<lambda>x solns. findMovesFromRow x unsolvedColIdxs solns) unsolvedRows of
           Inl e \<Rightarrow> Inl e
         | Inr rowMoves \<Rightarrow>
             (case collectMoves (\<lambda>y solns. findMovesFromCol y unsolvedRowIdxs solns) unsolvedCols of
                Inl e \<Rightarrow> Inl e
              | Inr colMoves \<Rightarrow> Inr (rowMoves, colMoves)))"

text \<open>
  The loops \<open>for (const move of rowMoves)\<close> and \<open>for (const move of colMoves)\<close>: the moves
  yielded, the board as mutated, and the exception if one was thrown.
  \<open>board[x]\<close> undefined makes \<open>board[x][y]\<close> a \<open>TypeError\<close>; \<open>board[x][y]\<close> undefined is
  \<open>!== 0\<close>, so the move is skipped.
\<close>

fun yieldMoves :: "Move list \<Rightarrow> Board \<Rightarrow> Move list \<times> Board \<times> js_error option" where
  "yieldMoves [] b = ([], b, None)"
| "yieldMoves (m # ms) b =
     (case js_nth b (tile_x m) of
        None \<Rightarrow> ([], b, Some TypeError)
      | Some r \<Rightarrow>
          if js_nth r (tile_y m) \<noteq> Some 0 then yieldMoves ms b
          else
            (case yieldMoves ms (b[tile_x m := r[tile_y m := nxt m]]) of
               (ys, b', e) \<Rightarrow> (m # ys, b', e)))"

definition applyMoves :: "Move list \<Rightarrow> Move list \<Rightarrow> Board \<Rightarrow> Move list \<times> Board \<times> js_error option" where
  "applyMoves rowMoves colMoves b =
     (case yieldMoves rowMoves b of
        (ys, b', Some e) \<Rightarrow> (ys, b', Some e)
      | (ys, b', None) \<Rightarrow>
          (case yieldMoves colMoves b' of
             (ys', b'', e) \<Rightarrow> (ys @ ys', b'', e)))"

definition noSolutionsError :: "Dim \<Rightarrow> nat \<Rightarrow> SolutionMap \<Rightarrow> SolutionMap \<Rightarrow> js_error" where
  "noSolutionsError d i m other =
     (case d of
        DimX \<Rightarrow> SolveError (''Row '' @ string_of_nat i @ '' has no solutions'') (keys m) (keys other)
      | DimY \<Rightarrow> SolveError (''Column '' @ string_of_nat i @ '' has no solutions'') (keys other) (keys m))"

text \<open>
  The loops \<open>for (const row of unsolvedRows)\<close> (\<open>d = DimX\<close>) and
  \<open>for (const col of unsolvedCols)\<close> (\<open>d = DimY\<close>) over the snapshot taken at the start of
  the round. The state is the map of the loop's own dimension, its unsolved count and
  \<open>prunedCount\<close>; \<open>other\<close> is the map of the other dimension, \<open>moves\<close> the moves found from
  the other dimension. A line's \<open>solns\<close> is assigned in its own iteration only, so the
  snapshot's value is the current one.
\<close>

fun retireLines ::
  "Dim \<Rightarrow> (nat \<times> Line list) list \<Rightarrow> Move list \<Rightarrow> SolutionMap \<Rightarrow> SolutionMap \<times> int \<times> int
     \<Rightarrow> js_error + (SolutionMap \<times> int \<times> int)" where
  "retireLines d [] moves other st = Inr st"
| "retireLines d ((i, solns) # rest) moves other (m, unsolvedCount, prunedCount) =
     (if isLineSolved solns then
        retireLines d rest moves other (m[i := None], unsolvedCount - 1, prunedCount + 1)
      else if isLineConflict solns then Inl (noSolutionsError d i m other)
      else
        (case (case d of
                 DimX \<Rightarrow> pruneRowByMoves solns (movesForRow i moves)
               | DimY \<Rightarrow> pruneColByMoves solns (movesForCol i moves)) of
           (solns', pruned) \<Rightarrow>
             retireLines d rest moves other (m[i := Some solns'], unsolvedCount, prunedCount + pruned)))"

text \<open>The nested loops over \<open>unsolvedRowIdxs\<close> and \<open>unsolvedColIdxs\<close>, as one loop over
  the pairs \<open>(x, y)\<close> in the same order.\<close>

fun arcPass ::
  "(nat \<times> nat) list \<Rightarrow> SolutionMap \<times> SolutionMap \<times> int
     \<Rightarrow> js_error + (SolutionMap \<times> SolutionMap \<times> int)" where
  "arcPass [] st = Inr st"
| "arcPass ((x, y) # rest) (rows, cols, prunedCount) =
     (case lookup cols y of
        None \<Rightarrow> Inl TypeError
      | Some colSolns0 \<Rightarrow>
          (case lookup rows x of
             None \<Rightarrow> Inl TypeError
           | Some rowSolns0 \<Rightarrow>
               (case pruneIntersection rowSolns0 colSolns0 x y of
                  (rowSolns, colSolns, pruned) \<Rightarrow>
                    arcPass rest
                      (rows[x := Some rowSolns], cols[y := Some colSolns], prunedCount + pruned))))"

text \<open>The rest of the round, from \<open>let prunedCount = 0\<close> on: the next state, or the
  exception thrown.\<close>

definition pruneRound :: "SolverState \<Rightarrow> Move list \<Rightarrow> Move list \<Rightarrow> js_error + SolverState" where
  "pruneRound st rowMoves colMoves =
     (case retireLines DimX (values_of (rowMap st)) colMoves (colMap st)
             (rowMap st, unsolvedRowCount st, 0) of
        Inl e \<Rightarrow> Inl e
      | Inr (rows1, rowCount, pruned1) \<Rightarrow>
          (case retireLines DimY (values_of (colMap st)) rowMoves rows1
                  (colMap st, unsolvedColCount st, pruned1) of
             Inl e \<Rightarrow> Inl e
           | Inr (cols1, colCount, pruned2) \<Rightarrow>
               if pruned2 > 0 then
                 Inr \<lparr>rowMap = rows1, colMap = cols1,
                      unsolvedRowCount = rowCount, unsolvedColCount = colCount\<rparr>
               else
                 (case arcPass (List.product (keys (rowMap st)) (keys (colMap st)))
                         (rows1, cols1, pruned2) of
                    Inl e \<Rightarrow> Inl e
                  | Inr (rows2, cols2, pruned3) \<Rightarrow>
                      if pruned3 = 0 then
                        Inl (SolveError ''Ran out of moves'' (keys rows2) (keys cols2))
                      else
                        Inr \<lparr>rowMap = rows2, colMap = cols2,
                             unsolvedRowCount = rowCount, unsolvedColCount = colCount\<rparr>)))"

text \<open>One pass through the body of \<open>while (unsolvedRowCount && unsolvedColCount)\<close>.\<close>

definition solverRound :: "SolverState \<Rightarrow> Board \<Rightarrow> Move list \<times> Board \<times> (js_error + SolverState)" where
  "solverRound st b =
     (case extractMoves st of
        Inl e \<Rightarrow> ([], b, Inl e)
      | Inr (rowMoves, colMoves) \<Rightarrow>
          (case applyMoves rowMoves colMoves b of
             (ys, b', Some e) \<Rightarrow> (ys, b', Inl e)
           | (ys, b', None) \<Rightarrow> (ys, b', pruneRound st rowMoves colMoves)))"

text \<open>
  What a consumer that pulls the generator to its end observes: the moves yielded in
  order, the board as it was left (it is mutated in place, also when the generator
  throws), the exception thrown if any, and the number of rounds of the loop.
\<close>

record GenResult =
  yielded :: "Move list"
  final_board :: Board
  thrown :: "js_error option"
  rounds :: nat

function generateMoves_loop :: "SolverState \<Rightarrow> Board \<Rightarrow> GenResult" where
  "generateMoves_loop st b =
     (if unsolvedRowCount st \<noteq> 0 \<and> unsolvedColCount st \<noteq> 0 then
        (case solverRound st b of
           (ys, b', Inl e) \<Rightarrow>
             \<lparr>yielded = ys, final_board = b', thrown = Some e, rounds = 1\<rparr>
         | (ys, b', Inr st') \<Rightarrow>
             (let r = generateMoves_loop st' b'
              in r\<lparr>yielded := ys @ yielded r, rounds := Suc (rounds r)\<rparr>))
      else \<lparr>yielded = [], final_board = b, thrown = None, rounds = 0\<rparr>)"
  by pat_completeness auto

definition initialState :: "Rules \<Rightarrow> SolverState" where
  "initialState rules =
     (let width = length (column rules);
          height = length (row rules)
      in \<lparr>rowMap = map (\<lambda>r. Some (generateLineSolns width r)) (row rules),
          colMap = map (\<lambda>c. Some (generateLineSolns height c)) (column rules),
          unsolvedRowCount = int (length (row rules)),
          unsolvedColCount = int (length (column rules))\<rparr>)"

definition generateMoves :: "Rules \<Rightarrow> Board \<Rightarrow> GenResult" where
  "generateMoves rules b = generateMoves_loop (initialState rules) b"

text \<open>\<open>solve\<close> catches a \<open>SolveError\<close> and rethrows anything else.\<close>

definition solve :: "Rules \<Rightarrow> js_error + Solution" where
  "solve rules =
     (let r = generateMoves rules (generateEmptyBoardFor rules)
      in case thrown r of
           Some (SolveError msg rows cols) \<Rightarrow>
             Inr \<lparr>board = final_board r, solved = False,
                  unsolved_rows = rows, unsolved_columns = cols\<rparr>
         | Some TypeError \<Rightarrow> Inl TypeError
         | None \<Rightarrow>
             Inr \<lparr>board = final_board r, solved = True,
                  unsolved_rows = [], unsolved_columns = []\<rparr>)"

section \<open>What a solved board is\<close>

text \<open>
  The runs of a line, read back from its cells: maximal blocks of equal cells, blank
  blocks (\<open>- 1\<close>) left out. This definition and the two after it follow the
  specification's words ("realizes its clue's runs in order"), not the code.
\<close>

fun blocks :: "Line \<Rightarrow> (nat \<times> int) list" where
  "blocks [] = []"
| "blocks (c # cs) =
     (case blocks cs of
        [] \<Rightarrow> [(1, c)]
      | (n, v) # rest \<Rightarrow> if v = c then (Suc n, v) # rest else (1, c) # (n, v) # rest)"

definition line_runs :: "Line \<Rightarrow> (nat \<times> int) list" where
  "line_runs l = filter (\<lambda>(n, v). v \<noteq> - 1) (blocks l)"

definition realizes :: "Line \<Rightarrow> Rule \<Rightarrow> bool" where
  "realizes l rule \<longleftrightarrow> line_runs l = map (\<lambda>r. (count r, val r)) rule"

text \<open>Column \<open>y\<close> of a board whose rows all reach that far.\<close>

definition board_column :: "Board \<Rightarrow> nat \<Rightarrow> Line" where
  "board_column b y = map (\<lambda>r. r ! y) b"

text \<open>A full-board solution of the rules: one row per row clue, one cell per column
  clue in each row, every row and every column realizing its clue.\<close>

definition is_solution :: "Rules \<Rightarrow> Board \<Rightarrow> bool" where
  "is_solution rules b \<longleftrightarrow>
     list_all (\<lambda>r. length r = length (column rules)) b
     \<and> list_all2 realizes b (row rules)
     \<and> list_all2 realizes (map (board_column b) [0..<length (column rules)]) (column rules)"

section \<open>Cells and replayed moves\<close>

text \<open>\<open>board[x][y]\<close> as a value: \<open>None\<close> where row \<open>x\<close> or cell \<open>y\<close> of it does not exist.\<close>

definition cell :: "Board \<Rightarrow> nat \<Rightarrow> nat \<Rightarrow> int option" where
  "cell b x y = (case js_nth b x of None \<Rightarrow> None | Some r \<Rightarrow> js_nth r y)"

text \<open>
  Writing a list of moves to a board in order, each at a cell that holds \<open>0\<close> when its
  turn comes; \<open>None\<close> if a move meets a cell that is not \<open>0\<close>. (A definition of the
  property, not of the code.)
\<close>

fun replay :: "Move list \<Rightarrow> Board \<Rightarrow> Board option" where
  "replay [] b = Some b"
| "replay (m # ms) b =
     (if cell b (tile_x m) (tile_y m) = Some 0
      then replay ms (b[tile_x m := (b ! tile_x m)[tile_y m := nxt m]])
      else None)"

section \<open>Notions for the line candidate generator\<close>

text \<open>The lexicographic order on slot choices.\<close>

definition lex_less :: "nat list \<Rightarrow> nat list \<Rightarrow> bool" where
  "lex_less xs ys \<longleftrightarrow> (xs, ys) \<in> lexord {(a, b). a < b}"

text \<open>A choice of \<open>p\<close> slots among \<open>s, ..., mx - 1\<close>: strictly increasing slot numbers.\<close>

definition slot_choice :: "int \<Rightarrow> nat \<Rightarrow> nat \<Rightarrow> nat list \<Rightarrow> bool" where
  "slot_choice mx p s a \<longleftrightarrow>
     length a = p \<and> sorted_wrt (<) a \<and> list_all (\<lambda>x. s \<le> x \<and> int x < mx) a"

text \<open>The value of \<open>totalSlots\<close> that \<open>generateLineSolns\<close> computes.\<close>

definition totalSlotsOf :: "nat \<Rightarrow> Rule \<Rightarrow> int" where
  "totalSlotsOf lineLength rule =
     int lineLength - int (length (filter same (taggedRule rule)))
       - int (foldl (\<lambda>a r. a + count r) 0 rule) + int (length rule)"

text \<open>A clue whose runs have positive length and a nonnegative colour.\<close>

definition clue_ok :: "Rule \<Rightarrow> bool" where
  "clue_ok rule = list_all (\<lambda>r. 0 < count r \<and> 0 \<le> val r) rule"

text \<open>
  The remaining notions serve the proofs. \<open>decode k t a ts\<close> is the line that the slots
  \<open>k, ..., t - 1\<close> give when the slots \<open>a\<close> hold the runs \<open>ts\<close>; \<open>fill\<close> is one store
  into the slots array; \<open>tag\<close> is \<open>taggedRule\<close> by recursion, from the colour of the
  previous run; \<open>chain\<close> says that the \<open>same\<close> flags of a tagged clue follow its colours.
\<close>

fun decode :: "nat \<Rightarrow> nat \<Rightarrow> nat list \<Rightarrow> TaggedEntry list \<Rightarrow> Line" where
  "decode k t (s # a) (r # ts) =
     replicate (s - k) (- 1) @ slotCells (Run r) @ decode (Suc s) t a ts"
| "decode k t a ts = replicate (t - k) (- 1)"

definition fill :: "nat \<times> TaggedEntry \<Rightarrow> Slot list \<Rightarrow> Slot list" where
  "fill = (\<lambda>(slot, r) sl. sl[slot := Run r])"

fun tag :: "int option \<Rightarrow> Rule \<Rightarrow> TaggedEntry list" where
  "tag pv [] = []"
| "tag pv (r # rs) = TaggedEntry (count r) (val r) (pv = Some (val r)) # tag (Some (val r)) rs"

fun chain :: "int option \<Rightarrow> TaggedEntry list \<Rightarrow> bool" where
  "chain pv [] = True"
| "chain pv (r # ts) = ((same r \<longleftrightarrow> pv = Some (t_val r)) \<and> chain (Some (t_val r)) ts)"

definition run_ok :: "TaggedEntry \<Rightarrow> bool" where
  "run_ok r \<longleftrightarrow> 0 < t_count r \<and> t_val r \<noteq> - 1"

definition hd_differs :: "int option \<Rightarrow> Line \<Rightarrow> bool" where
  "hd_differs pv l \<longleftrightarrow> l = [] \<or> pv \<noteq> Some (hd l)"

definition runs_of :: "TaggedEntry list \<Rightarrow> (nat \<times> int) list" where
  "runs_of ts = map (\<lambda>r. (t_count r, t_val r)) ts"

definition cells_of :: "TaggedEntry list \<Rightarrow> nat" where
  "cells_of ts = sum_list (map (\<lambda>r. length (slotCells (Run r))) ts)"

section \<open>Notions for the soundness of moves\<close>

text \<open>A move agrees with a board when the board holds the move's value at its tile.\<close>

definition agrees :: "Board \<Rightarrow> Move \<Rightarrow> bool" where
  "agrees S m \<longleftrightarrow> cell S (tile_x m) (tile_y m) = Some (nxt m)"

text \<open>
  The remaining notions serve the proofs: a map \<open>holds\<close> the lines \<open>f\<close> when the
  candidate set of every line \<open>i\<close> still in it contains \<open>f i\<close>; a move \<open>line_agrees\<close>
  with the lines \<open>f\<close> of dimension \<open>d\<close> when the line it crosses has the move's value
  there; \<open>solution_inv\<close> is the invariant of the loop for a solution \<open>S\<close> of width \<open>w\<close>.
\<close>

definition holds :: "(nat \<Rightarrow> Line) \<Rightarrow> SolutionMap \<Rightarrow> bool" where
  "holds f m \<longleftrightarrow> list_all (\<lambda>(i, solns). f i \<in> set solns) (values_of m)"

definition otherDim :: "Dim \<Rightarrow> Dim" where
  "otherDim d = (case d of DimX \<Rightarrow> DimY | DimY \<Rightarrow> DimX)"

definition line_agrees :: "Dim \<Rightarrow> (nat \<Rightarrow> Line) \<Rightarrow> Move \<Rightarrow> bool" where
  "line_agrees d f m \<longleftrightarrow> js_nth (f (tile d m)) (tile (otherDim d) m) = Some (nxt m)"

definition shaped :: "Board \<Rightarrow> nat \<Rightarrow> bool" where
  "shaped S w \<longleftrightarrow> list_all (\<lambda>r. length r = w) S"

definition solution_inv :: "Board \<Rightarrow> nat \<Rightarrow> SolverState \<Rightarrow> bool" where
  "solution_inv S w st \<longleftrightarrow>
     shaped S w \<and> length (rowMap st) \<le> length S \<and> length (colMap st) \<le> w
     \<and> holds (\<lambda>x. S ! x) (rowMap st) \<and> holds (board_column S) (colMap st)"

section \<open>Notions for the solved board\<close>

text \<open>A board fits a solution when it has the solution's shape and every cell holds
  the solution's value or is still unknown (\<open>0\<close>).\<close>

definition fits :: "Board \<Rightarrow> Board \<Rightarrow> bool" where
  "fits S b \<longleftrightarrow> list_all2 (\<lambda>rs rb. list_all2 (\<lambda>s c. c = 0 \<or> c = s) rs rb) S b"

text \<open>The number of lines still in a map, and the invariant of the loop that ties the
  board to the retired lines.\<close>

definition live :: "SolutionMap \<Rightarrow> nat" where
  "live m = length (values_of m)"

definition solved_inv :: "Board \<Rightarrow> nat \<Rightarrow> SolverState \<Rightarrow> Board \<Rightarrow> bool" where
  "solved_inv S w st b \<longleftrightarrow>
     solution_inv S w st \<and> length (rowMap st) = length S \<and> length (colMap st) = w
     \<and> fits S b
     \<and> unsolvedRowCount st = int (live (rowMap st))
     \<and> unsolvedColCount st = int (live (colMap st))
     \<and> (\<forall>x y. x < length S \<longrightarrow> y < w \<longrightarrow> rowMap st ! x = None \<or> colMap st ! y = None
            \<longrightarrow> cell b x y = cell S x y)"

section \<open>Notions for the exceptions\<close>

text \<open>An exception that is the runtime's \<open>TypeError\<close> or the \<open>SolveError\<close> of
  stagnation, that is, not one of the two "has no solutions" errors.\<close>

definition is_runtime_or_stagnation :: "js_error \<Rightarrow> bool" where
  "is_runtime_or_stagnation e \<longleftrightarrow>
     (case e of TypeError \<Rightarrow> True | SolveError msg rows cols \<Rightarrow> msg = ''Ran out of moves'')"

section \<open>The candidate mass decreases\<close>

text \<open>The mass of a map: for every line still in it, one plus the size of its
  candidate set.\<close>

definition weight :: "Line list option \<Rightarrow> nat" where
  "weight e = (case e of None \<Rightarrow> 0 | Some solns \<Rightarrow> Suc (length solns))"

definition mass :: "SolutionMap \<Rightarrow> nat" where
  "mass m = sum_list (map weight m)"

text \<open>A snapshot of a map: distinct keys, each holding in the map what the snapshot
  says.\<close>

definition snapshot_of :: "(nat \<times> Line list) list \<Rightarrow> SolutionMap \<Rightarrow> bool" where
  "snapshot_of snap m \<longleftrightarrow>
     distinct (map fst snap) \<and> list_all (\<lambda>(i, solns). i < length m \<and> m ! i = Some solns) snap"

lemma mass_update:
  "i < length m \<Longrightarrow> int (mass (m[i := v])) = int (mass m) - int (weight (m ! i)) + int (weight v)"
proof (induction m arbitrary: i)
  case Nil
  then show ?case by simp
next
  case (Cons a m)
  then show ?case by (cases i) (simp_all add: mass_def)
qed

lemma values_of_set:
  "set (values_of m) = {(i, solns). i < length m \<and> m ! i = Some solns}"
  by (auto simp: values_of_def in_set_enumerate_eq split: option.splits)

lemma entries_distinct_aux:
  "distinct (map fst (concat (map (\<lambda>(i, e). case e of None \<Rightarrow> [] | Some solns \<Rightarrow> [(i, solns)])
       (enumerate n (xs :: SolutionMap)))))
   \<and> (\<forall>k \<in> set (map fst (concat (map (\<lambda>(i, e). case e of None \<Rightarrow> [] | Some solns \<Rightarrow> [(i, solns)])
       (enumerate n xs)))). n \<le> k)"
proof (induction xs arbitrary: n)
  case Nil
  then show ?case by simp
next
  case (Cons x xs)
  from Cons[of "Suc n"] show ?case
    by (cases x) (auto simp: Suc_le_eq)
qed

lemma values_of_distinct: "distinct (map fst (values_of m))"
  using entries_distinct_aux[of 0 m] by (simp add: values_of_def)

lemma snapshot_of_values: "snapshot_of (values_of m) m"
  by (auto simp: snapshot_of_def values_of_distinct list_all_iff values_of_set)

lemma pruneByMoves_count:
  "pruneByMoves d solns moves = (solns', pruned)
   \<Longrightarrow> int (length solns') + pruned = int (length solns) \<and> 0 \<le> pruned"
  by (auto simp: pruneByMoves_def Let_def)

lemma retireLines_mass:
  "retireLines d snap moves other (m, uc, pc) = Inr (m', uc', pc') \<Longrightarrow> snapshot_of snap m
   \<Longrightarrow> int (mass m') + (pc' - pc) \<le> int (mass m) \<and> pc \<le> pc' \<and> length m' = length m"
proof (induction snap arbitrary: m uc pc)
  case Nil
  then show ?case by simp
next
  case (Cons e snap)
  obtain i solns where e: "e = (i, solns)" by (cases e)
  from Cons.prems(2) e have i: "i < length m" "m ! i = Some solns"
    and d: "i \<notin> fst ` set snap" "distinct (map fst snap)"
    and rest: "list_all (\<lambda>(j, s). j < length m \<and> m ! j = Some s) snap"
    by (auto simp: snapshot_of_def)
  have snap': "snapshot_of snap (m[i := v])" for v
  proof -
    have "j < length m \<and> m[i := v] ! j = Some s" if "(j, s) \<in> set snap" for j s
    proof -
      from that d(1) have "j \<noteq> i" by force
      with that rest show ?thesis by (auto simp: list_all_iff)
    qed
    with d(2) show ?thesis by (auto simp: snapshot_of_def list_all_iff)
  qed
  show ?case
  proof (cases "isLineSolved solns")
    case True
    with Cons.prems(1) e
    have "retireLines d snap moves other (m[i := None], uc - 1, pc + 1) = Inr (m', uc', pc')"
      by simp
    from Cons.IH[OF this snap'] mass_update[OF i(1), of None] i(2)
    show ?thesis by (simp add: weight_def)
  next
    case False
    with Cons.prems(1) e have nc: "\<not> isLineConflict solns"
      by (auto split: if_splits)
    obtain solns' pruned where p:
      "(case d of DimX \<Rightarrow> pruneRowByMoves solns (movesForRow i moves)
                | DimY \<Rightarrow> pruneColByMoves solns (movesForCol i moves)) = (solns', pruned)"
      by (cases "(case d of DimX \<Rightarrow> pruneRowByMoves solns (movesForRow i moves)
                | DimY \<Rightarrow> pruneColByMoves solns (movesForCol i moves))")
    then have cnt: "int (length solns') + pruned = int (length solns)" "0 \<le> pruned"
      by (auto simp: pruneRowByMoves_def pruneColByMoves_def split: Dim.splits
               dest: pruneByMoves_count)
    from Cons.prems(1) e False nc p
    have "retireLines d snap moves other (m[i := Some solns'], uc, pc + pruned) = Inr (m', uc', pc')"
      by simp
    from Cons.IH[OF this snap'] mass_update[OF i(1), of "Some solns'"] i(2) cnt
    show ?thesis by (simp add: weight_def)
  qed
qed

lemma lookup_Some: "lookup m i = Some s \<longleftrightarrow> i < length m \<and> m ! i = Some s"
  by (auto simp: lookup_def js_nth_def)

lemma pruneIntersection_count:
  "pruneIntersection rs cs x y = (rs', cs', pruned)
   \<Longrightarrow> int (length rs') + int (length cs') + pruned = int (length rs) + int (length cs)
       \<and> 0 \<le> pruned"
  by (auto simp: pruneIntersection_def pruneByColors_def Let_def)

lemma arcPass_mass:
  "arcPass ps (rm, cm, pc) = Inr (rm', cm', pc')
   \<Longrightarrow> int (mass rm') + int (mass cm') + (pc' - pc) = int (mass rm) + int (mass cm)
       \<and> pc \<le> pc'"
proof (induction ps arbitrary: rm cm pc)
  case Nil
  then show ?case by simp
next
  case (Cons p ps)
  obtain x y where p: "p = (x, y)" by (cases p)
  from Cons.prems p obtain cs where cs: "lookup cm y = Some cs"
    by (auto split: option.splits)
  from Cons.prems p cs obtain rs where rs: "lookup rm x = Some rs"
    by (auto split: option.splits)
  obtain rs' cs' pruned where pi: "pruneIntersection rs cs x y = (rs', cs', pruned)"
    by (cases "pruneIntersection rs cs x y")
  from Cons.prems p cs rs pi
  have "arcPass ps (rm[x := Some rs'], cm[y := Some cs'], pc + pruned) = Inr (rm', cm', pc')"
    by simp
  from Cons.IH[OF this] pruneIntersection_count[OF pi]
    mass_update[of x rm "Some rs'"] mass_update[of y cm "Some cs'"] rs cs
  show ?case by (simp add: lookup_Some weight_def)
qed

lemma pruneRound_mass:
  assumes "pruneRound st rowMoves colMoves = Inr st'"
  shows "mass (rowMap st') + mass (colMap st') < mass (rowMap st) + mass (colMap st)"
proof -
  from assms obtain rows1 rowCount pruned1 where
    r: "retireLines DimX (values_of (rowMap st)) colMoves (colMap st)
             (rowMap st, unsolvedRowCount st, 0) = Inr (rows1, rowCount, pruned1)"
    by (auto simp: pruneRound_def split: sum.splits)
  from assms r obtain cols1 colCount pruned2 where
    c: "retireLines DimY (values_of (colMap st)) rowMoves rows1
                  (colMap st, unsolvedColCount st, pruned1) = Inr (cols1, colCount, pruned2)"
    by (auto simp: pruneRound_def split: sum.splits)
  note m1 = retireLines_mass[OF r snapshot_of_values]
  note m2 = retireLines_mass[OF c snapshot_of_values]
  show ?thesis
  proof (cases "pruned2 > 0")
    case True
    with assms r c have "st' = \<lparr>rowMap = rows1, colMap = cols1,
                      unsolvedRowCount = rowCount, unsolvedColCount = colCount\<rparr>"
      by (simp add: pruneRound_def)
    with m1 m2 True show ?thesis by simp
  next
    case False
    with assms r c obtain rows2 cols2 pruned3 where
      a: "arcPass (List.product (keys (rowMap st)) (keys (colMap st))) (rows1, cols1, pruned2)
            = Inr (rows2, cols2, pruned3)"
      by (auto simp: pruneRound_def split: sum.splits)
    with assms r c False have p3: "pruned3 \<noteq> 0" and
      st': "st' = \<lparr>rowMap = rows2, colMap = cols2,
                      unsolvedRowCount = rowCount, unsolvedColCount = colCount\<rparr>"
      by (auto simp: pruneRound_def split: if_splits)
    from m1 m2 False have z: "pruned2 = 0" by simp
    from arcPass_mass[OF a] z p3 m1 m2 st' show ?thesis by simp
  qed
qed

termination generateMoves_loop
proof (relation "measure (\<lambda>(st, b). mass (rowMap st) + mass (colMap st))")
  show "wf (measure (\<lambda>(st, b). mass (rowMap st) + mass (colMap st)))"
    by simp
next
  fix st :: SolverState and b :: Board and x y ys b' z st'
  assume "(ys, y) = solverRound st b" and "(b', z) = y" and "z = Inr st'"
  then have "solverRound st b = (ys, b', Inr st')" by simp
  then obtain rowMoves colMoves where "pruneRound st rowMoves colMoves = Inr st'"
    by (auto simp: solverRound_def split: sum.splits prod.splits option.splits)
  from pruneRound_mass[OF this]
  show "((st', b'), (st, b)) \<in> measure (\<lambda>(st, b). mass (rowMap st) + mass (colMap st))"
    by simp
qed

declare generateMoves_loop.simps [simp del]

section \<open>Pruning only removes candidates\<close>

lemma getPossibleColors_eq: "getPossibleColors solns i = (\<lambda>soln. js_nth soln i) ` set solns"
proof -
  have "fold (\<lambda>soln colorSet. insert (js_nth soln i) colorSet) solns A
          = (\<lambda>soln. js_nth soln i) ` set solns \<union> A" for A
    by (induction solns arbitrary: A) auto
  then show ?thesis by (simp add: getPossibleColors_def)
qed

text \<open>
  C9. Each pruning operation returns a sublist of its input candidate set: no candidate
  is added, the size does not grow, and the removal count is the input size minus the
  output size.
\<close>

theorem prune_monotone:
  "subseq (fst (pruneByMoves d solns moves)) solns
   \<and> set (fst (pruneByMoves d solns moves)) \<subseteq> set solns
   \<and> length (fst (pruneByMoves d solns moves)) \<le> length solns
   \<and> snd (pruneByMoves d solns moves)
       = int (length solns) - int (length (fst (pruneByMoves d solns moves)))
   \<and> subseq (fst (pruneByColors solns allowed i)) solns
   \<and> set (fst (pruneByColors solns allowed i)) \<subseteq> set solns
   \<and> length (fst (pruneByColors solns allowed i)) \<le> length solns
   \<and> snd (pruneByColors solns allowed i)
       = int (length solns) - int (length (fst (pruneByColors solns allowed i)))"
  by (simp add: pruneByMoves_def pruneByColors_def Let_def)

text \<open>
  C8. Mutual pruning at an intersection is idempotent: after \<open>pruneIntersection\<close> has
  filtered a row's and a column's candidates to the colours both allow at their common
  cell, running it again on the result at the same cell returns the same two candidate
  sets and removes nothing.
\<close>

theorem arc_prune_idempotent:
  "(case pruneIntersection rs cs x y of
      (rs', cs', n) \<Rightarrow> pruneIntersection rs' cs' x y = (rs', cs', 0))"
proof -
  define I where "I = getPossibleColors cs x \<inter> getPossibleColors rs y"
  define rs' where "rs' = filter (\<lambda>soln. js_nth soln y \<in> I) rs"
  define cs' where "cs' = filter (\<lambda>soln. js_nth soln x \<in> I) cs"
  define I' where "I' = getPossibleColors cs' x \<inter> getPossibleColors rs' y"
  have r: "js_nth soln y \<in> I'" if "soln \<in> set rs'" for soln
  proof -
    from that have m: "soln \<in> set rs" and i: "js_nth soln y \<in> I"
      by (simp_all add: rs'_def)
    from i obtain c where c: "c \<in> set cs" "js_nth c x = js_nth soln y"
      unfolding I_def getPossibleColors_eq by force
    with i have "c \<in> set cs'" by (simp add: cs'_def)
    with c(2) have "js_nth soln y \<in> getPossibleColors cs' x"
      unfolding getPossibleColors_eq by force
    moreover from that have "js_nth soln y \<in> getPossibleColors rs' y"
      unfolding getPossibleColors_eq by force
    ultimately show ?thesis by (simp add: I'_def)
  qed
  have c: "js_nth soln x \<in> I'" if "soln \<in> set cs'" for soln
  proof -
    from that have m: "soln \<in> set cs" and i: "js_nth soln x \<in> I"
      by (simp_all add: cs'_def)
    from i obtain r where r: "r \<in> set rs" "js_nth r y = js_nth soln x"
      unfolding I_def getPossibleColors_eq by force
    with i have "r \<in> set rs'" by (simp add: rs'_def)
    with r(2) have "js_nth soln x \<in> getPossibleColors rs' y"
      unfolding getPossibleColors_eq by force
    moreover from that have "js_nth soln x \<in> getPossibleColors cs' x"
      unfolding getPossibleColors_eq by force
    ultimately show ?thesis by (simp add: I'_def)
  qed
  have fr: "filter (\<lambda>soln. js_nth soln y \<in> I') rs' = rs'"
    using r by (simp add: filter_id_conv)
  have fc: "filter (\<lambda>soln. js_nth soln x \<in> I') cs' = cs'"
    using c by (simp add: filter_id_conv)
  have 1: "pruneIntersection rs cs x y
        = (rs', cs', (int (length cs) - int (length cs')) + (int (length rs) - int (length rs')))"
    by (simp add: pruneIntersection_def pruneByColors_def Let_def I_def rs'_def cs'_def)
  have 2: "pruneIntersection rs' cs' x y = (rs', cs', 0)"
    using fr fc by (simp add: pruneIntersection_def pruneByColors_def Let_def I'_def)
  show ?thesis using 1 2 by simp
qed

section \<open>The loop ends\<close>

lemma generateMoves_loop_rounds:
  "rounds (generateMoves_loop st b) \<le> Suc (mass (rowMap st) + mass (colMap st))"
proof (induction st b rule: generateMoves_loop.induct)
  case (1 st b)
  note unfold = generateMoves_loop.simps[of st b]
  show ?case
  proof (cases "unsolvedRowCount st \<noteq> 0 \<and> unsolvedColCount st \<noteq> 0")
    case False
    then show ?thesis unfolding unfold by auto
  next
    case True
    obtain ys b' z where sr: "solverRound st b = (ys, b', z)"
      by (cases "solverRound st b")
    show ?thesis
    proof (cases z)
      case (Inl e)
      with True sr show ?thesis unfolding unfold by simp
    next
      case (Inr st')
      with sr obtain rowMoves colMoves where "pruneRound st rowMoves colMoves = Inr st'"
        by (auto simp: solverRound_def split: sum.splits prod.splits option.splits)
      from pruneRound_mass[OF this]
      have lt: "mass (rowMap st') + mass (colMap st') < mass (rowMap st) + mass (colMap st)" .
      from "1.IH"[OF True sr[symmetric] refl Inr]
      have "rounds (generateMoves_loop st' b') \<le> Suc (mass (rowMap st') + mass (colMap st'))" .
      with lt True sr Inr show ?thesis
        unfolding unfold by (simp add: Let_def)
    qed
  qed
qed

text \<open>The number of rounds of \<open>generateMoves\<close> is bounded by the candidate mass of the
  initial state: the loop always ends.\<close>

lemma generateMoves_rounds:
  "rounds (generateMoves rules b)
     \<le> Suc (mass (rowMap (initialState rules)) + mass (colMap (initialState rules)))"
  unfolding generateMoves_def by (rule generateMoves_loop_rounds)

section \<open>The board is written at unknown cells only\<close>

lemma replay_append:
  "replay (xs @ ys) b = (case replay xs b of None \<Rightarrow> None | Some b' \<Rightarrow> replay ys b')"
  by (induction xs arbitrary: b) auto

lemma yieldMoves_replay: "yieldMoves ms b = (ys, b', e) \<Longrightarrow> replay ys b = Some b'"
proof (induction ms arbitrary: b ys b' e)
  case Nil
  then show ?case by simp
next
  case (Cons m ms)
  show ?case
  proof (cases "js_nth b (tile_x m)")
    case None
    with Cons.prems show ?thesis by simp
  next
    case (Some r)
    then have r: "r = b ! tile_x m" by (auto simp: js_nth_def split: if_splits)
    show ?thesis
    proof (cases "js_nth r (tile_y m) = Some 0")
      case False
      with Cons.prems Some have "yieldMoves ms b = (ys, b', e)" by simp
      then show ?thesis by (rule Cons.IH)
    next
      case True
      with Some have c: "cell b (tile_x m) (tile_y m) = Some 0" by (simp add: cell_def)
      obtain ys' b2 e2 where
        y: "yieldMoves ms (b[tile_x m := r[tile_y m := nxt m]]) = (ys', b2, e2)"
        by (cases "yieldMoves ms (b[tile_x m := r[tile_y m := nxt m]])")
      with Cons.prems Some True have "ys = m # ys'" "b' = b2" by simp_all
      with Cons.IH[OF y] c r show ?thesis by simp
    qed
  qed
qed

lemma applyMoves_replay: "applyMoves rowMoves colMoves b = (ys, b', e) \<Longrightarrow> replay ys b = Some b'"
proof -
  assume a: "applyMoves rowMoves colMoves b = (ys, b', e)"
  obtain ys1 b1 e1 where y1: "yieldMoves rowMoves b = (ys1, b1, e1)"
    by (cases "yieldMoves rowMoves b")
  show ?thesis
  proof (cases e1)
    case (Some err)
    with a y1 have "ys = ys1" "b' = b1" by (simp_all add: applyMoves_def)
    with yieldMoves_replay[OF y1] show ?thesis by simp
  next
    case None
    obtain ys2 b2 e2 where y2: "yieldMoves colMoves b1 = (ys2, b2, e2)"
      by (cases "yieldMoves colMoves b1")
    with a y1 None have "ys = ys1 @ ys2" "b' = b2" by (simp_all add: applyMoves_def)
    with yieldMoves_replay[OF y1] yieldMoves_replay[OF y2] show ?thesis
      by (simp add: replay_append)
  qed
qed

lemma solverRound_replay: "solverRound st b = (ys, b', z) \<Longrightarrow> replay ys b = Some b'"
  by (auto simp: solverRound_def split: sum.splits prod.splits option.splits
           dest: applyMoves_replay)

lemma generateMoves_loop_replay:
  "replay (yielded (generateMoves_loop st b)) b = Some (final_board (generateMoves_loop st b))"
proof (induction st b rule: generateMoves_loop.induct)
  case (1 st b)
  note unfold = generateMoves_loop.simps[of st b]
  show ?case
  proof (cases "unsolvedRowCount st \<noteq> 0 \<and> unsolvedColCount st \<noteq> 0")
    case False
    then show ?thesis unfolding unfold by auto
  next
    case True
    obtain ys b' z where sr: "solverRound st b = (ys, b', z)"
      by (cases "solverRound st b")
    note rp = solverRound_replay[OF sr]
    show ?thesis
    proof (cases z)
      case (Inl e)
      with True sr rp show ?thesis unfolding unfold by simp
    next
      case (Inr st')
      from "1.IH"[OF True sr[symmetric] refl Inr] rp True sr Inr
      show ?thesis unfolding unfold by (simp add: Let_def replay_append)
    qed
  qed
qed

lemma cell_update:
  "cell (b[i := (b ! i)[j := v]]) x y
     = (if x = i \<and> y = j \<and> cell b x y \<noteq> None then Some v else cell b x y)"
  by (cases "x = i"; cases "x < length b"; cases "y = j"; simp add: cell_def js_nth_def)

lemma replay_frame:
  "replay ms b = Some b' \<Longrightarrow> cell b x y \<noteq> Some 0 \<Longrightarrow> cell b' x y = cell b x y"
proof (induction ms arbitrary: b)
  case Nil
  then show ?case by simp
next
  case (Cons m ms)
  from Cons.prems(1) have c: "cell b (tile_x m) (tile_y m) = Some 0"
    and r: "replay ms (b[tile_x m := (b ! tile_x m)[tile_y m := nxt m]]) = Some b'"
    by (auto split: if_splits)
  from c Cons.prems(2) have ne: "\<not> (x = tile_x m \<and> y = tile_y m)" by auto
  then have same: "cell (b[tile_x m := (b ! tile_x m)[tile_y m := nxt m]]) x y = cell b x y"
    by (auto simp: cell_update)
  with Cons.IH[OF r] Cons.prems(2) show ?case by simp
qed

text \<open>
  C10. The board \<open>generateMoves\<close> leaves behind is the given board with the yielded
  moves written to it in order, each at a cell that held \<open>0\<close> at that moment; so a cell
  of the given board that holds a non-zero value holds it at the end as well.
\<close>

theorem generateMoves_writes_unknown_cells_only:
  "replay (yielded (generateMoves rules b)) b = Some (final_board (generateMoves rules b))
   \<and> (cell b x y = Some v \<and> v \<noteq> 0 \<longrightarrow> cell (final_board (generateMoves rules b)) x y = Some v)"
  using generateMoves_loop_replay[of "initialState rules" b]
    replay_frame[of "yielded (generateMoves rules b)" b "final_board (generateMoves rules b)" x y]
  by (auto simp: generateMoves_def)

theorem generateMoves_writes_unknown_cells_only_witness:
  "cell [[0, 0], [7, 0]] 1 0 = Some 7 \<and> (7::int) \<noteq> 0
   \<and> cell (final_board (generateMoves
        \<lparr>column = [[RuleEntry 1 1], [RuleEntry 1 1]], row = [[], [RuleEntry 2 1]]\<rparr>
        [[0, 0], [7, 0]])) 1 0 = Some 7
   \<and> final_board (generateMoves
        \<lparr>column = [[RuleEntry 1 1], [RuleEntry 1 1]], row = [[], [RuleEntry 2 1]]\<rparr>
        [[0, 0], [7, 0]]) = [[- 1, - 1], [7, 1]]"
proof -
  have h: "cell [[0, 0], [7, 0]] 1 0 = Some 7 \<and> (7::int) \<noteq> 0" by code_simp
  have f: "final_board (generateMoves
        \<lparr>column = [[RuleEntry 1 1], [RuleEntry 1 1]], row = [[], [RuleEntry 2 1]]\<rparr>
        [[0, 0], [7, 0]]) = [[- 1, - 1], [7, 1]]" by code_simp
  from generateMoves_writes_unknown_cells_only[of
        "\<lparr>column = [[RuleEntry 1 1], [RuleEntry 1 1]], row = [[], [RuleEntry 2 1]]\<rparr>"
        "[[0, 0], [7, 0]]" 1 0 7] h
  have "cell (final_board (generateMoves
        \<lparr>column = [[RuleEntry 1 1], [RuleEntry 1 1]], row = [[], [RuleEntry 2 1]]\<rparr>
        [[0, 0], [7, 0]])) 1 0 = Some 7" by blast
  with h f show ?thesis by blast
qed

section \<open>The line candidate generator\<close>

lemma choose_combs_one:
  "choose_combs mx (Suc 0) s = (if int s < mx then [s] # choose_combs mx (Suc 0) (Suc s) else [])"
proof (cases "int s < mx")
  case True
  then have "nat (max (mx - int s) 0) = Suc (nat (max (mx - int (Suc s)) 0))" by simp
  then show ?thesis using True
    by (simp add: count_arr_def upt_conv_Cons map_Suc_upt[symmetric] del: upt_Suc)
next
  case False
  then show ?thesis by (simp add: count_arr_def)
qed

lemma choose_combs_more:
  "choose_combs mx (Suc (Suc p)) s =
     (if int s < mx - 1
      then map ((#) s) (choose_combs mx (Suc p) (Suc s)) @ choose_combs mx (Suc (Suc p)) (Suc s)
      else [])"
proof (cases "int s < mx - 1")
  case True
  then have "[s..<nat (mx - 1)] = s # [Suc s..<nat (mx - 1)]"
    by (simp add: upt_conv_Cons)
  then show ?thesis using True by simp
next
  case False
  then have "[s..<nat (mx - 1)] = []" by simp
  then show ?thesis using False by simp
qed

declare choose_combs.simps [simp del]

lemma choose_combs_length:
  "length (choose_combs mx (Suc p) s) = (nat (mx - int s)) choose (Suc p)"
proof (induction n \<equiv> "nat (mx - int s)" arbitrary: s p)
  case 0
  then show ?case
    by (cases p) (simp_all add: choose_combs_one choose_combs_more)
next
  case (Suc n)
  then have n: "n = nat (mx - int (Suc s))" and lt: "int s < mx" by simp_all
  note IH = Suc.hyps(1)[OF n]
  show ?case
  proof (cases p)
    case 0
    with lt IH[of 0] Suc.hyps(2)[symmetric] n show ?thesis
      by (simp add: choose_combs_one)
  next
    case (Suc q)
    show ?thesis
    proof (cases "int s < mx - 1")
      case True
      with IH[of q] IH[of "Suc q"] Suc.hyps(2)[symmetric] n Suc show ?thesis
        by (simp add: choose_combs_more)
    next
      case False
      with lt have "nat (mx - int s) = 1" by simp
      with False Suc show ?thesis
        by (simp add: choose_combs_more)
    qed
  qed
qed

lemma slot_choice_Cons:
  "slot_choice mx (Suc p) s (x # a) \<longleftrightarrow> s \<le> x \<and> int x < mx \<and> slot_choice mx p (Suc x) a"
  by (auto simp: slot_choice_def list_all_iff)

lemma slot_choice_mono: "slot_choice mx p (Suc s) a \<Longrightarrow> slot_choice mx p s a"
  by (auto simp: slot_choice_def list_all_iff)

lemma slot_choice_0 [simp]: "slot_choice mx 0 s a \<longleftrightarrow> a = []"
  by (auto simp: slot_choice_def)

lemma slot_choice_room: "slot_choice mx p s a \<Longrightarrow> int s + int p \<le> max mx (int s)"
proof (induction a arbitrary: p s)
  case Nil
  then show ?case by (simp add: slot_choice_def)
next
  case (Cons x a)
  then obtain q where p: "p = Suc q" by (cases p) (auto simp: slot_choice_def)
  with Cons.prems have x: "s \<le> x" "int x < mx" and r: "slot_choice mx q (Suc x) a"
    by (simp_all add: slot_choice_Cons)
  from Cons.IH[OF r] x p show ?case by simp
qed

lemma choose_combs_set:
  "a \<in> set (choose_combs mx (Suc p) s) \<longleftrightarrow> slot_choice mx (Suc p) s a"
proof (induction n \<equiv> "nat (mx - int s)" arbitrary: s p a)
  case 0
  then have nlt: "\<not> int s < mx" by simp
  then have "\<not> slot_choice mx (Suc p) s a"
    using slot_choice_room[of mx "Suc p" s a] by auto
  moreover have "choose_combs mx (Suc p) s = []"
    using nlt by (cases p) (simp_all add: choose_combs_one choose_combs_more)
  ultimately show ?case by simp
next
  case (Suc n)
  then have n: "n = nat (mx - int (Suc s))" and lt: "int s < mx" by simp_all
  note IH = Suc.hyps(1)[OF n]
  have split: "slot_choice mx (Suc q) s a \<longleftrightarrow>
      (\<exists>a'. a = s # a' \<and> slot_choice mx q (Suc s) a') \<or> slot_choice mx (Suc q) (Suc s) a" for q
  proof (cases a)
    case Nil
    then show ?thesis by (simp add: slot_choice_def)
  next
    case (Cons x a')
    show ?thesis
    proof (cases "x = s")
      case True
      with Cons lt show ?thesis by (auto simp: slot_choice_Cons dest: slot_choice_mono)
    next
      case False
      then have "s \<le> x \<longleftrightarrow> Suc s \<le> x" by auto
      with Cons False show ?thesis by (simp add: slot_choice_Cons)
    qed
  qed
  show ?case
  proof (cases p)
    case 0
    have "choose_combs mx (Suc 0) s = [s] # choose_combs mx (Suc 0) (Suc s)"
      using lt by (subst choose_combs_one) simp
    then have "a \<in> set (choose_combs mx (Suc 0) s)
        \<longleftrightarrow> a = [s] \<or> slot_choice mx (Suc 0) (Suc s) a"
      using IH[of a 0] by simp
    also have "\<dots> \<longleftrightarrow> slot_choice mx (Suc 0) s a"
      unfolding split[of 0] by simp
    finally show ?thesis using 0 by simp
  next
    case (Suc q)
    show ?thesis
    proof (cases "int s < mx - 1")
      case True
      have "choose_combs mx (Suc (Suc q)) s
        = map ((#) s) (choose_combs mx (Suc q) (Suc s)) @ choose_combs mx (Suc (Suc q)) (Suc s)"
        using True by (subst choose_combs_more) simp
      then have "a \<in> set (choose_combs mx (Suc (Suc q)) s)
        \<longleftrightarrow> (\<exists>a'. a = s # a' \<and> a' \<in> set (choose_combs mx (Suc q) (Suc s)))
            \<or> a \<in> set (choose_combs mx (Suc (Suc q)) (Suc s))"
        by auto
      also have "\<dots> \<longleftrightarrow> (\<exists>a'. a = s # a' \<and> slot_choice mx (Suc q) (Suc s) a')
            \<or> slot_choice mx (Suc (Suc q)) (Suc s) a"
        unfolding IH[of a "Suc q"] IH[of _ q] ..
      also have "\<dots> \<longleftrightarrow> slot_choice mx (Suc (Suc q)) s a"
        unfolding split[of "Suc q"] ..
      finally show ?thesis using Suc by simp
    next
      case False
      with slot_choice_room[of mx "Suc (Suc q)" s a] lt have "\<not> slot_choice mx (Suc (Suc q)) s a"
        by auto
      moreover have "choose_combs mx (Suc (Suc q)) s = []"
        using False by (subst choose_combs_more) simp
      ultimately show ?thesis using Suc by simp
    qed
  qed
qed

lemma lex_less_Cons_same [simp]: "lex_less (x # xs) (x # ys) \<longleftrightarrow> lex_less xs ys"
  by (simp add: lex_less_def)

lemma lex_less_Cons_less: "x < y \<Longrightarrow> lex_less (x # xs) (y # ys)"
  by (simp add: lex_less_def)

lemma choose_combs_sorted: "sorted_wrt lex_less (choose_combs mx (Suc p) s)"
proof (induction n \<equiv> "nat (mx - int s)" arbitrary: s p)
  case 0
  then have nlt: "\<not> int s < mx" by simp
  have "choose_combs mx (Suc p) s = []"
    using nlt by (cases p) (simp_all add: choose_combs_one choose_combs_more)
  then show ?case by simp
next
  case (Suc n)
  then have n: "n = nat (mx - int (Suc s))" and lt: "int s < mx" by simp_all
  note IH = Suc.hyps(1)[OF n]
  have later: "lex_less (s # a') b" if "b \<in> set (choose_combs mx (Suc q) (Suc s))" for a' b q
  proof -
    from that have "slot_choice mx (Suc q) (Suc s) b" by (simp only: choose_combs_set)
    then obtain x b' where "b = x # b'" "Suc s \<le> x"
      by (cases b) (auto simp: slot_choice_def)
    then show ?thesis by (simp add: lex_less_Cons_less)
  qed
  show ?case
  proof (cases p)
    case 0
    have "choose_combs mx (Suc 0) s = [s] # choose_combs mx (Suc 0) (Suc s)"
      using lt by (subst choose_combs_one) simp
    with IH[of 0] later[of _ 0 "[]"] 0 show ?thesis by simp
  next
    case (Suc q)
    show ?thesis
    proof (cases "int s < mx - 1")
      case True
      have eq: "choose_combs mx (Suc (Suc q)) s
        = map ((#) s) (choose_combs mx (Suc q) (Suc s)) @ choose_combs mx (Suc (Suc q)) (Suc s)"
        using True by (subst choose_combs_more) simp
      have "sorted_wrt lex_less (map ((#) s) (choose_combs mx (Suc q) (Suc s)))"
        using IH[of q] by (simp add: sorted_wrt_map)
      moreover have "sorted_wrt lex_less (choose_combs mx (Suc (Suc q)) (Suc s))"
        by (rule IH)
      moreover have "\<forall>a \<in> set (map ((#) s) (choose_combs mx (Suc q) (Suc s))).
                \<forall>b \<in> set (choose_combs mx (Suc (Suc q)) (Suc s)). lex_less a b"
        using later[of _ "Suc q"] by auto
      ultimately show ?thesis unfolding Suc eq sorted_wrt_append by blast
    next
      case False
      have "choose_combs mx (Suc (Suc q)) s = []"
        using False by (subst choose_combs_more) simp
      with Suc show ?thesis by simp
    qed
  qed
qed

lemma lex_less_irrefl: "\<not> lex_less a a"
  by (simp add: lex_less_def lexord_irreflexive)

lemma choose_combs_distinct: "distinct (choose_combs mx (Suc p) s)"
proof -
  have "distinct xs" if "sorted_wrt lex_less xs" for xs
    using that by (induction xs) (auto simp: lex_less_irrefl)
  then show ?thesis using choose_combs_sorted by blast
qed

lemma fold_store_fill:
  "i + length a \<le> length tagged \<Longrightarrow> list_all (\<lambda>x. x < length sl) a \<Longrightarrow>
   fold (\<lambda>(i, slot) slots.
           js_store slots slot (case js_nth tagged i of None \<Rightarrow> Undefined | Some t \<Rightarrow> Run t))
        (enumerate i a) sl
   = fold fill (zip a (drop i tagged)) sl"
proof (induction a arbitrary: i sl)
  case Nil
  then show ?case by simp
next
  case (Cons s a)
  let ?f = "\<lambda>(i, slot) slots.
           js_store slots slot (case js_nth tagged i of None \<Rightarrow> Undefined | Some t \<Rightarrow> Run t)"
  from Cons.prems have i: "i < length tagged" and s: "s < length sl" by simp_all
  from i have d: "drop i tagged = tagged ! i # drop (Suc i) tagged"
    by (simp add: Cons_nth_drop_Suc)
  have step: "?f (i, s) sl = sl[s := Run (tagged ! i)]"
    using i s by (simp add: js_store_def js_nth_def)
  have "fold ?f (enumerate i (s # a)) sl = fold ?f (enumerate (Suc i) a) (sl[s := Run (tagged ! i)])"
    unfolding step[symmetric] by simp
  also have "\<dots> = fold fill (zip a (drop (Suc i) tagged)) (sl[s := Run (tagged ! i)])"
  proof (rule Cons.IH)
    show "Suc i + length a \<le> length tagged" using Cons.prems by simp
    show "list_all (\<lambda>x. x < length (sl[s := Run (tagged ! i)])) a"
      using Cons.prems by simp
  qed
  also have "\<dots> = fold fill (zip (s # a) (drop i tagged)) sl"
    unfolding d by (simp add: fill_def)
  finally show ?case .
qed

lemma fold_fill_length [simp]: "length (fold fill zs sl) = length sl"
  by (induction zs arbitrary: sl) (auto simp: fill_def)

lemma fold_fill_other: "j \<notin> fst ` set zs \<Longrightarrow> fold fill zs sl ! j = sl ! j"
  by (induction zs arbitrary: sl) (auto simp: fill_def)

lemma concat_slots_decode:
  "sorted_wrt (<) a \<Longrightarrow> list_all (\<lambda>x. k \<le> x \<and> x < length sl) a \<Longrightarrow> length ts = length a
   \<Longrightarrow> (\<And>j. k \<le> j \<Longrightarrow> j < length sl \<Longrightarrow> sl ! j = Undefined)
   \<Longrightarrow> concat (map slotCells (drop k (fold fill (zip a ts) sl))) = decode k (length sl) a ts"
proof (induction a arbitrary: k ts sl)
  case Nil
  have "drop k sl = replicate (length sl - k) Undefined"
    using Nil.prems(4) by (auto simp: list_eq_iff_nth_eq)
  then show ?case
    by (simp add: slotCells_def concat_replicate_trivial[symmetric] map_replicate_const
        del: concat_replicate_trivial) 
next
  case (Cons s a)
  then obtain r ts' where ts: "ts = r # ts'" by (cases ts) auto
  let ?sl' = "sl[s := Run r]"
  let ?res = "fold fill (zip a ts') ?sl'"
  from Cons.prems have s: "k \<le> s" "s < length sl"
    and gt: "\<forall>x \<in> set a. s < x" by (auto simp: list_all_iff)
  have res: "fold fill (zip (s # a) ts) sl = ?res" by (simp add: ts fill_def)
  have len: "length ?res = length sl" by simp
  have low: "?res ! j = ?sl' ! j" if "j \<le> s" for j
  proof (rule fold_fill_other)
    show "j \<notin> fst ` set (zip a ts')" using that gt by (auto dest!: set_zip_leftD)
  qed
  have "drop k ?res = take (s - k) (drop k ?res) @ (drop k ?res) ! (s - k) # drop (Suc (s - k)) (drop k ?res)"
    using s len by (intro id_take_nth_drop) simp
  moreover have "take (s - k) (drop k ?res) = replicate (s - k) Undefined"
    using s len low Cons.prems(4) by (auto simp: list_eq_iff_nth_eq)
  moreover have "(drop k ?res) ! (s - k) = Run r"
    using s len low[of s] by simp
  moreover have "drop (Suc (s - k)) (drop k ?res) = drop (Suc s) ?res"
    using s by simp
  ultimately have split: "drop k ?res = replicate (s - k) Undefined @ Run r # drop (Suc s) ?res"
    by simp
  have "concat (map slotCells (drop (Suc s) ?res)) = decode (Suc s) (length ?sl') a ts'"
  proof (rule Cons.IH)
    show "sorted_wrt (<) a" using Cons.prems(1) by simp
    show "list_all (\<lambda>x. Suc s \<le> x \<and> x < length ?sl') a"
      using Cons.prems(2) gt by (auto simp: list_all_iff)
    show "length ts' = length a" using Cons.prems(3) ts by simp
    show "?sl' ! j = Undefined" if "Suc s \<le> j" "j < length ?sl'" for j
      using that s Cons.prems(4)[of j] by simp
  qed
  then show ?case
    unfolding res split by (simp add: ts slotCells_def[of Undefined] map_replicate_const)
qed

lemma arrangementLine_decode:
  assumes "slot_choice T (length tagged) 0 a"
  shows "arrangementLine T tagged a = decode 0 (nat T) a tagged"
proof -
  from assms have len: "length a = length tagged" and srt: "sorted_wrt (<) a"
    and bnd: "list_all (\<lambda>x. int x < T) a"
    by (auto simp: slot_choice_def list_all_iff)
  let ?sl = "replicate (nat T) Undefined"
  have sl: "count_arr (nat T) (\<lambda>_. Undefined) = ?sl"
    by (simp add: count_arr_def map_replicate_const)
  have b: "list_all (\<lambda>x. x < length ?sl) a"
    using bnd by (auto simp: list_all_iff)
  have b0: "list_all (\<lambda>x. 0 \<le> x \<and> x < length ?sl) a"
    using bnd by (auto simp: list_all_iff)
  have "fold (\<lambda>(i, slot) slots.
           js_store slots slot (case js_nth tagged i of None \<Rightarrow> Undefined | Some t \<Rightarrow> Run t))
        (enumerate 0 a) ?sl = fold fill (zip a (drop 0 tagged)) ?sl"
    using len b by (intro fold_store_fill) simp_all
  moreover have "concat (map slotCells (drop 0 (fold fill (zip a tagged) ?sl)))
      = decode 0 (length ?sl) a tagged"
    using srt b0 len by (intro concat_slots_decode) simp_all
  ultimately show ?thesis
    by (simp add: arrangementLine_def sl Let_def)
qed

subsection \<open>Reading runs back\<close>

lemma blocks_hd: "l \<noteq> [] \<Longrightarrow> \<exists>n rest. blocks l = (Suc n, hd l) # rest"
proof (induction l)
  case Nil
  then show ?case by simp
next
  case (Cons c cs)
  then show ?case by (cases cs) (auto split: list.splits)
qed

lemma blocks_replicate_append:
  "0 < n \<Longrightarrow> xs = [] \<or> hd xs \<noteq> v \<Longrightarrow> blocks (replicate n v @ xs) = (n, v) # blocks xs"
proof (induction n)
  case 0
  then show ?case by simp
next
  case (Suc n)
  show ?case
  proof (cases n)
    case 0
    show ?thesis
    proof (cases xs)
      case Nil
      with 0 show ?thesis by simp
    next
      case (Cons y ys)
      with blocks_hd[of xs] Suc.prems obtain m rest where "blocks xs = (Suc m, y) # rest" "y \<noteq> v"
        by auto
      with 0 show ?thesis by simp
    qed
  next
    case (Suc m)
    with Suc.IH Suc.prems show ?thesis by simp
  qed
qed

lemma line_runs_blank_Cons: "line_runs ((- 1) # xs) = line_runs xs"
  by (auto simp: line_runs_def split: list.splits)

lemma line_runs_blanks: "line_runs (replicate g (- 1) @ xs) = line_runs xs"
  by (induction g) (simp_all add: line_runs_blank_Cons)

lemma line_runs_run:
  "0 < n \<Longrightarrow> v \<noteq> - 1 \<Longrightarrow> xs = [] \<or> hd xs \<noteq> v
   \<Longrightarrow> line_runs (replicate n v @ xs) = (n, v) # line_runs xs"
  by (simp add: line_runs_def blocks_replicate_append)

subsection \<open>Decoded lines\<close>

lemma slotCells_Run:
  "slotCells (Run r) = (if same r then [- 1] else []) @ replicate (t_count r) (t_val r)"
  by (simp add: slotCells_def count_arr_def Let_def map_replicate_const)

lemma decode_length:
  "slot_choice (int t) (length ts) k a
   \<Longrightarrow> length (decode k t a ts) + length ts = t - k + cells_of ts"
proof (induction ts arbitrary: a k)
  case Nil
  then show ?case by (simp add: cells_of_def)
next
  case (Cons r ts)
  then obtain s a' where a: "a = s # a'" by (cases a) (auto simp: slot_choice_def)
  with Cons.prems have s: "k \<le> s" "s < t" and r: "slot_choice (int t) (length ts) (Suc s) a'"
    by (simp_all add: slot_choice_Cons)
  from Cons.IH[OF r] s a show ?case by (simp add: cells_of_def)
qed

lemma decode_runs:
  "chain pv ts \<Longrightarrow> list_all run_ok ts \<Longrightarrow> pv \<noteq> Some (- 1)
   \<Longrightarrow> slot_choice (int t) (length ts) k a
   \<Longrightarrow> line_runs (decode k t a ts) = runs_of ts \<and> hd_differs pv (decode k t a ts)"
proof (induction ts arbitrary: a k pv)
  case Nil
  then have "a = []" by simp
  with Nil.prems(3) line_runs_blanks[of "t - k" "[]"] show ?case
    by (auto simp: runs_of_def hd_differs_def line_runs_def)
next
  case (Cons r ts)
  then obtain s a' where a: "a = s # a'" by (cases a) (auto simp: slot_choice_def)
  with Cons.prems have s: "k \<le> s" "s < t" and sc: "slot_choice (int t) (length ts) (Suc s) a'"
    by (simp_all add: slot_choice_Cons)
  from Cons.prems have okr: "run_ok r" and oks: "list_all run_ok ts"
    and ch: "chain (Some (t_val r)) ts" and sm: "same r \<longleftrightarrow> pv = Some (t_val r)"
    by simp_all
  from okr have ok: "0 < t_count r" "t_val r \<noteq> - 1" by (simp_all add: run_ok_def)
  let ?rest = "decode (Suc s) t a' ts"
  from Cons.IH[OF ch oks _ sc] ok
  have IH: "line_runs ?rest = runs_of ts" "hd_differs (Some (t_val r)) ?rest" by simp_all
  have d: "decode k t a (r # ts)
      = replicate (s - k) (- 1) @ (if same r then [- 1] else []) @ replicate (t_count r) (t_val r) @ ?rest"
    by (simp add: a slotCells_Run)
  have "line_runs (replicate (t_count r) (t_val r) @ ?rest) = (t_count r, t_val r) # line_runs ?rest"
    using ok IH(2) by (intro line_runs_run) (auto simp: hd_differs_def)
  then have 1: "line_runs (decode k t a (r # ts)) = runs_of (r # ts)"
    unfolding d using IH(1)
    by (simp add: line_runs_blanks line_runs_blank_Cons runs_of_def)
  have 2: "hd_differs pv (decode k t a (r # ts))"
  proof (cases "s - k")
    case (Suc g)
    with Cons.prems(3) show ?thesis unfolding d by (auto simp: hd_differs_def)
  next
    case 0
    show ?thesis
    proof (cases "same r")
      case True
      with 0 Cons.prems(3) show ?thesis unfolding d by (auto simp: hd_differs_def)
    next
      case False
      with sm have "pv \<noteq> Some (t_val r)" by simp
      moreover from ok obtain c where "t_count r = Suc c" by (cases "t_count r") auto
      ultimately show ?thesis unfolding d using 0 False by (simp add: hd_differs_def)
    qed
  qed
  from 1 2 show ?case by simp
qed

lemma takeWhile_blanks:
  "xs = [] \<or> hd xs \<noteq> x \<Longrightarrow> takeWhile (\<lambda>c. c = x) (replicate g x @ xs) = replicate g x"
  by (induction g) (cases xs; simp)+

lemma decode_Cons_lead:
  assumes "run_ok r" "k \<le> s"
  shows "length (takeWhile (\<lambda>c. c = - 1) (decode k t (s # a) (r # ts)))
           = s - k + (if same r then 1 else 0)"
proof -
  from assms(1) obtain c where c: "t_count r = Suc c" and v: "t_val r \<noteq> - 1"
    by (cases "t_count r") (auto simp: run_ok_def)
  let ?g = "s - k + (if same r then 1 else 0)"
  have eq: "decode k t (s # a) (r # ts)
      = replicate ?g (- 1) @ (t_val r # replicate c (t_val r) @ decode (Suc s) t a ts)"
    by (simp add: slotCells_Run c replicate_add[symmetric] replicate_append_same)
  have tw: "takeWhile (\<lambda>c. c = - 1) (replicate ?g (- 1) @ (t_val r # replicate c (t_val r) @ decode (Suc s) t a ts))
      = replicate ?g (- 1)"
    using v by (intro takeWhile_blanks) simp
  show ?thesis by (simp only: eq tw length_replicate)
qed

lemma decode_inj:
  "list_all run_ok ts \<Longrightarrow> slot_choice mx (length ts) k a \<Longrightarrow> slot_choice mx (length ts) k a'
   \<Longrightarrow> decode k t a ts = decode k t a' ts \<Longrightarrow> a = a'"
proof (induction ts arbitrary: a a' k)
  case Nil
  then show ?case by simp
next
  case (Cons r ts)
  from Cons.prems(2) obtain s a1 where a: "a = s # a1" by (cases a) (auto simp: slot_choice_def)
  from Cons.prems(3) obtain s' a1' where a': "a' = s' # a1'" by (cases a') (auto simp: slot_choice_def)
  from Cons.prems a a' have s: "k \<le> s" "k \<le> s'"
    and sc: "slot_choice mx (length ts) (Suc s) a1" "slot_choice mx (length ts) (Suc s') a1'"
    by (simp_all add: slot_choice_Cons)
  from Cons.prems(1) have okr: "run_ok r" and oks: "list_all run_ok ts" by simp_all
  from Cons.prems(4) a a' decode_Cons_lead[OF okr s(1), of t a1 ts]
    decode_Cons_lead[OF okr s(2), of t a1' ts] s
  have eq: "s = s'" by simp
  with Cons.prems(4) a a' have "decode (Suc s) t a1 ts = decode (Suc s) t a1' ts" by simp
  with Cons.IH[OF oks sc(1)] sc(2) eq have "a1 = a1'" by simp
  with eq a a' show ?case by simp
qed

lemma takeWhile_eq_replicate:
  "takeWhile (\<lambda>c. c = x) l = replicate (length (takeWhile (\<lambda>c. c = x) l)) x"
  by (induction l) auto

lemma split_leading:
  "\<exists>g l0. l = replicate g x @ l0 \<and> (l0 = [] \<or> hd l0 \<noteq> x)"
proof (intro exI conjI)
  show "l = replicate (length (takeWhile (\<lambda>c. c = x) l)) x @ dropWhile (\<lambda>c. c = x) l"
    using takeWhile_eq_replicate[of x l] by simp
  show "dropWhile (\<lambda>c. c = x) l = [] \<or> hd (dropWhile (\<lambda>c. c = x) l) \<noteq> x"
    using hd_dropWhile[of "\<lambda>c. c = x" l] by auto
qed

lemma line_split:
  assumes "line_runs l = (c, v) # rs"
  shows "\<exists>g l'. l = replicate g (- 1) @ replicate c v @ l' \<and> (l' = [] \<or> hd l' \<noteq> v)
            \<and> line_runs l' = rs \<and> 0 < c \<and> v \<noteq> - 1"
proof -
  obtain g l0 where l: "l = replicate g (- 1) @ l0" and l0: "l0 = [] \<or> hd l0 \<noteq> - 1"
    using split_leading[of l "- 1"] by blast
  from assms l have r0: "line_runs l0 = (c, v) # rs" by (simp add: line_runs_blanks)
  then have ne: "l0 \<noteq> []" by (auto simp: line_runs_def)
  with l0 have x: "hd l0 \<noteq> - 1" by simp
  obtain n l' where l0': "l0 = replicate n (hd l0) @ l'" and l': "l' = [] \<or> hd l' \<noteq> hd l0"
    using split_leading[of l0 "hd l0"] by blast
  have n: "0 < n"
  proof (rule ccontr)
    assume "\<not> 0 < n"
    with l0' have "l0 = l'" by simp
    with l' ne show False by simp
  qed
  have "line_runs (replicate n (hd l0) @ l') = (n, hd l0) # line_runs l'"
    using n x l' by (intro line_runs_run) auto
  with l0' r0 have "c = n" "v = hd l0" "rs = line_runs l'" by simp_all
  with l l0' l' n x show ?thesis by (intro exI[of _ g] exI[of _ l']) auto
qed

lemma line_runs_Nil: "line_runs l = [] \<Longrightarrow> l = replicate (length l) (- 1)"
proof (induction l)
  case Nil
  then show ?case by simp
next
  case (Cons c cs)
  show ?case
  proof (cases "c = - 1")
    case True
    with Cons show ?thesis by (simp add: line_runs_blank_Cons)
  next
    case False
    from blocks_hd[of "c # cs"] obtain n rest where "blocks (c # cs) = (Suc n, c) # rest"
      by auto
    with False Cons.prems show ?thesis by (simp add: line_runs_def)
  qed
qed

lemma cells_of_Cons:
  "cells_of (r # ts) = (if same r then 1 else 0) + t_count r + cells_of ts"
  by (simp add: cells_of_def slotCells_Run)

lemma decode_complete:
  "chain pv ts \<Longrightarrow> list_all run_ok ts \<Longrightarrow> line_runs l = runs_of ts \<Longrightarrow> hd_differs pv l
   \<Longrightarrow> cells_of ts \<le> length l + length ts
       \<and> (\<exists>a. slot_choice (int (k + length l + length ts - cells_of ts)) (length ts) k a
              \<and> l = decode k (k + length l + length ts - cells_of ts) a ts)"
proof (induction ts arbitrary: l k pv)
  case Nil
  then have "l = replicate (length l) (- 1)" by (simp add: runs_of_def line_runs_Nil)
  then have "l = decode k (k + length l + length ([]::TaggedEntry list) - cells_of []) [] []"
    by (simp add: cells_of_def)
  then show ?case by (intro conjI exI[of _ "[]"]) (simp_all add: cells_of_def)
next
  case (Cons r ts)
  let ?c = "t_count r" and ?v = "t_val r"
  let ?b = "if same r then 1 else 0 :: nat"
  from Cons.prems(3) have "line_runs l = (?c, ?v) # runs_of ts" by (simp add: runs_of_def)
  from line_split[OF this] obtain g l' where
    l: "l = replicate g (- 1) @ replicate ?c ?v @ l'" and l': "l' = [] \<or> hd l' \<noteq> ?v"
    and r': "line_runs l' = runs_of ts" and c: "0 < ?c" and v: "?v \<noteq> - 1"
    by blast
  from Cons.prems have ch: "chain (Some ?v) ts" and sm: "same r \<longleftrightarrow> pv = Some ?v"
    and oks: "list_all run_ok ts" by simp_all
  have gb: "?b \<le> g"
  proof (cases "same r")
    case False
    then show ?thesis by simp
  next
    case True
    with sm have pv: "pv = Some ?v" by simp
    have "g \<noteq> 0"
    proof
      assume "g = 0"
      with l c have "l \<noteq> []" "hd l = ?v" by (auto simp: hd_append)
      with Cons.prems(4) pv show False by (simp add: hd_differs_def)
    qed
    with True show ?thesis by simp
  qed
  define s where "s = k + g - ?b"
  define t where "t = Suc s + length l' + length ts - cells_of ts"
  have hd': "hd_differs (Some ?v) l'" using l' by (auto simp: hd_differs_def)
  from Cons.IH[OF ch oks r' hd', of "Suc s"] obtain a' where
    le: "cells_of ts \<le> length l' + length ts"
    and sc: "slot_choice (int t) (length ts) (Suc s) a'"
    and dl: "l' = decode (Suc s) t a' ts"
    unfolding t_def by blast
  have len: "length l = g + ?c + length l'" using l by simp
  have t: "k + length l + length (r # ts) - cells_of (r # ts) = t"
    using gb le by (simp add: len cells_of_Cons t_def s_def)
  have 1: "cells_of (r # ts) \<le> length l + length (r # ts)"
    using gb le by (simp add: len cells_of_Cons)
  have st: "s < t" using le unfolding t_def by simp
  have ks: "k \<le> s" using gb unfolding s_def by simp
  have 2: "slot_choice (int t) (length (r # ts)) k (s # a')"
    using sc st ks by (simp add: slot_choice_Cons)
  have sk: "s - k + ?b = g" using gb unfolding s_def by simp
  have "replicate g (- 1) = replicate (s - k) (- 1) @ (if same r then [- 1] else [])"
    unfolding sk[symmetric] by (simp add: replicate_append_same)
  then have "l = replicate (s - k) (- 1) @ slotCells (Run r) @ l'"
    using l by (simp add: slotCells_Run)
  also have "\<dots> = decode k t (s # a') (r # ts)"
    using dl by simp
  finally have 3: "l = decode k t (s # a') (r # ts)" .
  from 1 2 3 show ?case unfolding t by blast
qed

lemma taggedRule_tag_aux:
  "map (\<lambda>(i, r). TaggedEntry (count r) (val r) (isSameColorAsPrevious (p @ rs) i))
       (enumerate (length p) rs)
   = tag (if p = [] then None else Some (val (last p))) rs"
proof (induction rs arbitrary: p)
  case Nil
  then show ?case by simp
next
  case (Cons r rs)
  have hd: "isSameColorAsPrevious (p @ r # rs) (length p)
      \<longleftrightarrow> (if p = [] then None else Some (val (last p))) = Some (val r)"
    by (cases p rule: rev_cases) (simp_all add: isSameColorAsPrevious_def js_nth_def nth_append)
  from Cons.IH[of "p @ [r]"] hd show ?case by simp
qed

lemma taggedRule_tag: "taggedRule rule = tag None rule"
  using taggedRule_tag_aux[of "[]" rule] by (simp add: taggedRule_def)

lemma tag_length [simp]: "length (tag pv rule) = length rule"
  by (induction rule arbitrary: pv) auto

lemma tag_chain: "chain pv (tag pv rule)"
  by (induction rule arbitrary: pv) auto

lemma tag_runs: "runs_of (tag pv rule) = map (\<lambda>r. (count r, val r)) rule"
  by (induction rule arbitrary: pv) (auto simp: runs_of_def)

lemma tag_run_ok:
  "list_all (\<lambda>r. 0 < count r \<and> 0 \<le> val r) rule \<Longrightarrow> list_all run_ok (tag pv rule)"
  by (induction rule arbitrary: pv) (auto simp: run_ok_def)

lemma tag_cells:
  "cells_of (tag pv rule) = length (filter same (tag pv rule)) + sum_list (map count rule)"
  by (induction rule arbitrary: pv) (auto simp: cells_of_Cons, auto simp: cells_of_def)

lemma foldl_count: "foldl (\<lambda>a r. a + count r) n rule = n + sum_list (map count rule)"
  by (induction rule arbitrary: n) auto

lemma totalSlotsOf_cells:
  "totalSlotsOf L rule = int L + int (length rule) - int (cells_of (taggedRule rule))"
  by (simp add: totalSlotsOf_def taggedRule_tag tag_cells foldl_count)

lemma generateLineSolns_Nil: "generateLineSolns L [] = [replicate L (- 1)]"
  by (simp add: generateLineSolns_def count_arr_def map_replicate_const)

lemma generateLineSolns_Cons:
  "rule \<noteq> [] \<Longrightarrow> generateLineSolns L rule
     = map (arrangementLine (totalSlotsOf L rule) (taggedRule rule))
         (choose_combs (totalSlotsOf L rule) (length rule) 0)"
  by (simp add: generateLineSolns_def totalSlotsOf_def Let_def)

lemma generateLineSolns_length:
  "length (generateLineSolns L rule) = nat (totalSlotsOf L rule) choose length rule"
proof (cases rule)
  case Nil
  then show ?thesis by (simp add: generateLineSolns_Nil)
next
  case (Cons r rs)
  then have "length (generateLineSolns L rule)
      = length (choose_combs (totalSlotsOf L rule) (Suc (length rs)) 0)"
    by (simp add: generateLineSolns_Cons)
  with Cons show ?thesis by (simp add: choose_combs_length)
qed

lemma slot_choice_nat:
  assumes "slot_choice T (Suc p) 0 a"
  shows "int (nat T) = T" "int (Suc p) \<le> T"
  using slot_choice_room[OF assms] by simp_all

lemma generateLineSolns_sound:
  assumes ok: "clue_ok rule" and l: "l \<in> set (generateLineSolns L rule)"
  shows "length l = L \<and> realizes l rule"
proof (cases rule)
  case Nil
  with l have "l = replicate L (- 1)" by (simp add: generateLineSolns_Nil)
  with Nil line_runs_blanks[of L "[]"] show ?thesis
    by (simp add: realizes_def line_runs_def)
next
  case (Cons r rs)
  let ?T = "totalSlotsOf L rule" and ?ts = "taggedRule rule"
  have n: "length rule = Suc (length rs)" "length ?ts = Suc (length rs)"
    using Cons by (simp_all add: taggedRule_tag)
  from l Cons obtain a where a: "a \<in> set (choose_combs ?T (length rule) 0)"
    and la: "l = arrangementLine ?T ?ts a"
    by (auto simp: generateLineSolns_Cons)
  from a have sc: "slot_choice ?T (Suc (length rs)) 0 a"
    by (simp only: n choose_combs_set)
  note T = slot_choice_nat[OF sc]
  from sc have sc': "slot_choice (int (nat ?T)) (length ?ts) 0 a" by (simp only: T n)
  from sc have "slot_choice ?T (length ?ts) 0 a" by (simp only: n)
  from arrangementLine_decode[OF this] la have ld: "l = decode 0 (nat ?T) a ?ts" by simp
  have oks: "list_all run_ok ?ts"
    using ok by (simp add: taggedRule_tag tag_run_ok clue_ok_def)
  have ch: "chain None ?ts" by (simp add: taggedRule_tag tag_chain)
  from decode_runs[OF ch oks _ sc'] ld have "line_runs l = runs_of ?ts" by simp
  then have 1: "realizes l rule" by (simp add: realizes_def taggedRule_tag tag_runs)
  from decode_length[OF sc'] ld have "length l + length ?ts = nat ?T + cells_of ?ts" by simp
  moreover have "?T = int L + int (length rule) - int (cells_of ?ts)"
    by (rule totalSlotsOf_cells)
  ultimately have 2: "length l = L" using T n by simp
  from 1 2 show ?thesis by simp
qed

lemma blocks_pos: "(n, v) \<in> set (blocks l) \<Longrightarrow> 0 < n"
proof (induction l arbitrary: n v)
  case Nil
  then show ?case by simp
next
  case (Cons c cs)
  then show ?case by (cases "blocks cs") (auto split: if_splits)
qed

lemma realizes_run_ok:
  assumes "realizes l rule"
  shows "list_all run_ok (taggedRule rule)"
proof -
  have "0 < count r \<and> val r \<noteq> - 1" if "r \<in> set rule" for r
  proof -
    from that assms have "(count r, val r) \<in> set (line_runs l)"
      by (auto simp: realizes_def)
    then show ?thesis by (auto simp: line_runs_def dest: blocks_pos)
  qed
  moreover have "list_all run_ok (tag pv rule)" if "\<forall>r \<in> set rule. 0 < count r \<and> val r \<noteq> - 1" for pv
    using that by (induction rule arbitrary: pv) (auto simp: run_ok_def)
  ultimately show ?thesis by (simp add: taggedRule_tag)
qed

lemma generateLineSolns_holds_realizing:
  assumes len: "length l = L" and re: "realizes l rule"
  shows "l \<in> set (generateLineSolns L rule)"
proof (cases rule)
  case Nil
  with re have "line_runs l = []" by (simp add: realizes_def)
  from line_runs_Nil[OF this] len Nil show ?thesis by (simp add: generateLineSolns_Nil)
next
  case (Cons r rs)
  let ?T = "totalSlotsOf L rule" and ?ts = "taggedRule rule"
  have n: "length rule = Suc (length rs)" "length ?ts = Suc (length rs)"
    using Cons by (simp_all add: taggedRule_tag)
  have oks: "list_all run_ok ?ts" using re by (rule realizes_run_ok)
  have ch: "chain None ?ts" by (simp add: taggedRule_tag tag_chain)
  have lr: "line_runs l = runs_of ?ts"
    using re by (simp add: realizes_def taggedRule_tag tag_runs)
  have hd: "hd_differs None l" by (simp add: hd_differs_def)
  from decode_complete[OF ch oks lr hd, of 0] obtain a where
    le: "cells_of ?ts \<le> length l + length ?ts"
    and sc: "slot_choice (int (0 + length l + length ?ts - cells_of ?ts)) (length ?ts) 0 a"
    and ld: "l = decode 0 (0 + length l + length ?ts - cells_of ?ts) a ?ts"
    by blast
  have T: "?T = int (0 + length l + length ?ts - cells_of ?ts)"
    using le len n by (simp add: totalSlotsOf_cells)
  from sc have sc': "slot_choice ?T (length ?ts) 0 a" by (simp only: T)
  then have "a \<in> set (choose_combs ?T (length rule) 0)"
    by (simp only: n choose_combs_set)
  moreover from arrangementLine_decode[OF sc'] ld have "arrangementLine ?T ?ts a = l"
    by (simp only: T nat_int)
  ultimately show ?thesis using Cons by (force simp: generateLineSolns_Cons)
qed

lemma generateLineSolns_complete:
  assumes ok: "clue_ok rule" and len: "length l = L" and re: "realizes l rule"
  shows "l \<in> set (generateLineSolns L rule)"
  using len re by (rule generateLineSolns_holds_realizing)

lemma generateLineSolns_distinct:
  assumes ok: "clue_ok rule"
  shows "distinct (generateLineSolns L rule)"
proof (cases rule)
  case Nil
  then show ?thesis by (simp add: generateLineSolns_Nil)
next
  case (Cons r rs)
  let ?T = "totalSlotsOf L rule" and ?ts = "taggedRule rule"
  have n: "length rule = Suc (length rs)" "length ?ts = Suc (length rs)"
    using Cons by (simp_all add: taggedRule_tag)
  have oks: "list_all run_ok ?ts"
    using ok by (simp add: taggedRule_tag tag_run_ok clue_ok_def)
  have "inj_on (arrangementLine ?T ?ts) (set (choose_combs ?T (length rule) 0))"
  proof (rule inj_onI)
    fix a a'
    assume "a \<in> set (choose_combs ?T (length rule) 0)" "a' \<in> set (choose_combs ?T (length rule) 0)"
      and eq: "arrangementLine ?T ?ts a = arrangementLine ?T ?ts a'"
    then have sc: "slot_choice ?T (length ?ts) 0 a" "slot_choice ?T (length ?ts) 0 a'"
      by (simp_all only: n choose_combs_set)
    from eq arrangementLine_decode[OF sc(1)] arrangementLine_decode[OF sc(2)]
    have "decode 0 (nat ?T) a ?ts = decode 0 (nat ?T) a' ?ts" by simp
    from decode_inj[OF oks sc this] show "a = a'" .
  qed
  moreover have "distinct (choose_combs ?T (length rule) 0)"
    by (simp only: n choose_combs_distinct)
  ultimately show ?thesis using Cons by (simp add: generateLineSolns_Cons distinct_map)
qed

text \<open>
  C5, as amended. For a clue whose runs all have positive length and a nonnegative
  colour, \<open>generateLineSolns L clue\<close> returns \<open>C(totalSlots, nGroups)\<close> lines, no line
  twice; the lines are exactly the colourings of \<open>L\<close> cells whose runs, read back, are
  the clue's runs; and they are the images, in order, of the slot choices that
  \<open>choose\<close> lists in strictly increasing lexicographic order.
\<close>

theorem generateLineSolns_correct:
  assumes "clue_ok rule"
  shows "length (generateLineSolns L rule) = nat (totalSlotsOf L rule) choose length rule
    \<and> distinct (generateLineSolns L rule)
    \<and> set (generateLineSolns L rule) = {l. length l = L \<and> realizes l rule}
    \<and> (if rule = [] then generateLineSolns L rule = [replicate L (- 1)]
       else generateLineSolns L rule
              = map (arrangementLine (totalSlotsOf L rule) (taggedRule rule))
                  (choose_combs (totalSlotsOf L rule) (length rule) 0)
            \<and> sorted_wrt lex_less (choose_combs (totalSlotsOf L rule) (length rule) 0))"
proof -
  have "sorted_wrt lex_less (choose_combs (totalSlotsOf L rule) (length rule) 0)" if "rule \<noteq> []"
  proof -
    from that obtain p where "length rule = Suc p" by (cases rule) auto
    then show ?thesis by (simp only: choose_combs_sorted)
  qed
  moreover have "set (generateLineSolns L rule) = {l. length l = L \<and> realizes l rule}"
    using generateLineSolns_sound[OF assms] generateLineSolns_complete[OF assms] by blast
  ultimately show ?thesis
    using generateLineSolns_length[of L rule] generateLineSolns_distinct[OF assms, of L]
    by (simp add: generateLineSolns_Nil generateLineSolns_Cons)
qed

theorem generateLineSolns_correct_witness:
  "clue_ok [RuleEntry 2 1, RuleEntry 1 1]
   \<and> generateLineSolns 5 [RuleEntry 2 1, RuleEntry 1 1]
       = [[1, 1, - 1, 1, - 1], [1, 1, - 1, - 1, 1], [- 1, 1, 1, - 1, 1]]
   \<and> length (generateLineSolns 5 [RuleEntry 2 1, RuleEntry 1 1])
       = nat (totalSlotsOf 5 [RuleEntry 2 1, RuleEntry 1 1])
           choose length [RuleEntry 2 1, RuleEntry 1 1]
   \<and> distinct (generateLineSolns 5 [RuleEntry 2 1, RuleEntry 1 1])
   \<and> set (generateLineSolns 5 [RuleEntry 2 1, RuleEntry 1 1])
       = {l. length l = 5 \<and> realizes l [RuleEntry 2 1, RuleEntry 1 1]}"
proof -
  have h: "clue_ok [RuleEntry 2 1, RuleEntry 1 1]" by code_simp
  have v: "generateLineSolns 5 [RuleEntry 2 1, RuleEntry 1 1]
       = [[1, 1, - 1, 1, - 1], [1, 1, - 1, - 1, 1], [- 1, 1, 1, - 1, 1]]" by code_simp
  note c = generateLineSolns_correct[OF h, of 5]
  note c1 = c[THEN conjunct1]
  note c2 = c[THEN conjunct2, THEN conjunct1]
  note c3 = c[THEN conjunct2, THEN conjunct2, THEN conjunct1]
  show ?thesis by (intro conjI) (rule h v c1 c2 c3)+
qed

text \<open>
  C5 as stated fails for a run of length 0: the two slot choices of the clue "no tile of
  colour 1" on a line of one cell give the same line twice, and no line reads back as a
  run of length 0.
\<close>

theorem generateLineSolns_zero_run_counterexample:
  "generateLineSolns 1 [RuleEntry 0 1] = [[- 1], [- 1]]
   \<and> \<not> distinct (generateLineSolns 1 [RuleEntry 0 1])
   \<and> \<not> realizes [- 1] [RuleEntry 0 1]"
  by code_simp

section \<open>Yielded moves agree with every solution\<close>

lemma holds_iff:
  "holds f m \<longleftrightarrow> (\<forall>i solns. i < length m \<and> m ! i = Some solns \<longrightarrow> f i \<in> set solns)"
  by (auto simp: holds_def list_all_iff values_of_set)

lemma findValidMoves_agree:
  assumes "findValidMoves lines idx mapper = Inr ms" and "l \<in> set lines" and "m \<in> set ms"
  shows "\<exists>i v. m = mapper i v \<and> js_nth l i = Some v"
proof -
  from assms(1,2) obtain l0 rest where lines: "lines = l0 # rest" by (cases lines) auto
  with assms(1,3) obtain i where i: "i < length l0" "allEqualAt lines i" "m = mapper i (l0 ! i)"
    by (auto simp: findValidMoves_def split: if_splits)
  from i(2) lines assms(2) have "js_nth l i = js_nth l0 i"
    by (auto simp: allEqualAt_def list_all_iff)
  moreover from i(1) have "js_nth l0 i = Some (l0 ! i)" by (simp add: js_nth_def)
  ultimately have "js_nth l i = Some (l0 ! i)" by simp
  with i(3) show ?thesis by blast
qed

lemma collectMoves_set:
  "collectMoves f snap = Inr ms \<Longrightarrow> m \<in> set ms
   \<Longrightarrow> \<exists>i solns ms'. (i, solns) \<in> set snap \<and> f i solns = Inr ms' \<and> m \<in> set ms'"
proof (induction snap arbitrary: ms)
  case Nil
  then show ?case by simp
next
  case (Cons e snap)
  obtain i solns where e: "e = (i, solns)" by (cases e)
  from Cons.prems(1) e obtain ms1 ms2 where
    1: "f i solns = Inr ms1" and 2: "collectMoves f snap = Inr ms2" and ms: "ms = ms1 @ ms2"
    by (auto split: sum.splits)
  from Cons.prems(2) ms consider "m \<in> set ms1" | "m \<in> set ms2" by auto
  then show ?case
  proof cases
    case 1
    have "(i, solns) \<in> set (e # snap)" using e by simp
    with \<open>f i solns = Inr ms1\<close> 1 show ?thesis by blast
  next
    case 2
    from Cons.IH[OF \<open>collectMoves f snap = Inr ms2\<close> 2] obtain j s' ms' where
      "(j, s') \<in> set snap" "f j s' = Inr ms'" "m \<in> set ms'" by blast
    moreover then have "(j, s') \<in> set (e # snap)" by simp
    ultimately show ?thesis by blast
  qed
qed

lemma yieldMoves_subset: "yieldMoves ms b = (ys, b', e) \<Longrightarrow> set ys \<subseteq> set ms"
proof (induction ms arbitrary: b ys b' e)
  case Nil
  then show ?case by simp
next
  case (Cons m ms)
  show ?case
  proof (cases "js_nth b (tile_x m)")
    case None
    with Cons.prems show ?thesis by simp
  next
    case (Some r)
    show ?thesis
    proof (cases "js_nth r (tile_y m) = Some 0")
      case False
      with Cons.prems Some have "yieldMoves ms b = (ys, b', e)" by simp
      from Cons.IH[OF this] show ?thesis by (simp add: subset_insertI2)
    next
      case True
      obtain ys' b2 e2 where
        y: "yieldMoves ms (b[tile_x m := r[tile_y m := nxt m]]) = (ys', b2, e2)"
        by (cases "yieldMoves ms (b[tile_x m := r[tile_y m := nxt m]])")
      with Cons.prems Some True have "ys = m # ys'" by simp
      with Cons.IH[OF y] show ?thesis by (simp add: subset_insertI2)
    qed
  qed
qed

lemma applyMoves_subset:
  assumes "applyMoves rowMoves colMoves b = (ys, b', e)"
  shows "set ys \<subseteq> set rowMoves \<union> set colMoves"
proof -
  obtain ys1 b1 e1 where y1: "yieldMoves rowMoves b = (ys1, b1, e1)"
    by (cases "yieldMoves rowMoves b")
  note s1 = yieldMoves_subset[OF y1]
  show ?thesis
  proof (cases e1)
    case (Some err)
    with assms y1 have "ys = ys1" by (simp add: applyMoves_def)
    with s1 show ?thesis by blast
  next
    case None
    obtain ys2 b2 e2 where y2: "yieldMoves colMoves b1 = (ys2, b2, e2)"
      by (cases "yieldMoves colMoves b1")
    note s2 = yieldMoves_subset[OF y2]
    from assms y1 None y2 have "ys = ys1 @ ys2" by (simp add: applyMoves_def)
    with s1 s2 show ?thesis by auto
  qed
qed

lemma holds_update_None: "holds f m \<Longrightarrow> holds f (m[i := None])"
  unfolding holds_iff
proof (intro allI impI)
  fix j solns
  assume h: "\<forall>i solns. i < length m \<and> m ! i = Some solns \<longrightarrow> f i \<in> set solns"
    and j: "j < length (m[i := None]) \<and> m[i := None] ! j = Some solns"
  then have "j \<noteq> i" by auto
  with j h show "f j \<in> set solns" by simp
qed

lemma holds_update_Some: "holds f m \<Longrightarrow> f i \<in> set solns \<Longrightarrow> holds f (m[i := Some solns])"
  unfolding holds_iff
proof (intro allI impI)
  fix j s
  assume h: "\<forall>i solns. i < length m \<and> m ! i = Some solns \<longrightarrow> f i \<in> set solns"
    and fi: "f i \<in> set solns"
    and j: "j < length (m[i := Some solns]) \<and> m[i := Some solns] ! j = Some s"
  show "f j \<in> set s"
  proof (cases "j = i")
    case True
    with j have "s = solns" by auto
    with True fi show ?thesis by simp
  next
    case False
    with j h show ?thesis by simp
  qed
qed

lemma holds_lookup: "holds f m \<Longrightarrow> lookup m i = Some solns \<Longrightarrow> f i \<in> set solns"
  by (auto simp: holds_iff lookup_Some)

lemma prune_keeps:
  assumes "f i \<in> set solns" and "list_all (line_agrees d f) moves"
    and "(case d of DimX \<Rightarrow> pruneRowByMoves solns (movesForRow i moves)
                  | DimY \<Rightarrow> pruneColByMoves solns (movesForCol i moves)) = (solns', pruned)"
  shows "f i \<in> set solns'"
proof -
  have eq: "(case d of DimX \<Rightarrow> pruneRowByMoves solns (movesForRow i moves)
                  | DimY \<Rightarrow> pruneColByMoves solns (movesForCol i moves))
      = pruneByMoves (otherDim d) solns (filterMoves d i moves)"
    by (cases d) (simp_all add: pruneRowByMoves_def pruneColByMoves_def movesForRow_def
        movesForCol_def otherDim_def)
  have "js_nth (f i) (tile (otherDim d) mv) = Some (nxt mv)" if "mv \<in> set (filterMoves d i moves)" for mv
  proof -
    from that have "mv \<in> set moves" "tile d mv = i" by (simp_all add: filterMoves_def)
    with assms(2) show ?thesis by (auto simp: list_all_iff line_agrees_def)
  qed
  with assms(1,3) show ?thesis
    unfolding eq by (auto simp: pruneByMoves_def Let_def list_all_iff)
qed

lemma retireLines_keeps:
  "retireLines d snap moves other (m, uc, pc) = Inr (m', uc', pc') \<Longrightarrow> holds f m
   \<Longrightarrow> list_all (\<lambda>(i, solns). f i \<in> set solns) snap \<Longrightarrow> list_all (line_agrees d f) moves
   \<Longrightarrow> holds f m'"
proof (induction snap arbitrary: m uc pc)
  case Nil
  then show ?case by simp
next
  case (Cons e snap)
  obtain i solns where e: "e = (i, solns)" by (cases e)
  from Cons.prems(3) e have fi: "f i \<in> set solns"
    and rest: "list_all (\<lambda>(i, solns). f i \<in> set solns) snap" by simp_all
  show ?case
  proof (cases "isLineSolved solns")
    case True
    with Cons.prems(1) e
    have "retireLines d snap moves other (m[i := None], uc - 1, pc + 1) = Inr (m', uc', pc')"
      by simp
    from Cons.IH[OF this holds_update_None[OF Cons.prems(2)] rest Cons.prems(4)]
    show ?thesis .
  next
    case False
    with Cons.prems(1) e have nc: "\<not> isLineConflict solns"
      by (auto split: if_splits)
    obtain solns' pruned where p:
      "(case d of DimX \<Rightarrow> pruneRowByMoves solns (movesForRow i moves)
                | DimY \<Rightarrow> pruneColByMoves solns (movesForCol i moves)) = (solns', pruned)"
      by (cases "(case d of DimX \<Rightarrow> pruneRowByMoves solns (movesForRow i moves)
                | DimY \<Rightarrow> pruneColByMoves solns (movesForCol i moves))")
    from Cons.prems(1) e False nc p
    have r: "retireLines d snap moves other (m[i := Some solns'], uc, pc + pruned) = Inr (m', uc', pc')"
      by simp
    from prune_keeps[OF fi Cons.prems(4) p] have "f i \<in> set solns'" .
    from Cons.IH[OF r holds_update_Some[OF Cons.prems(2) this] rest Cons.prems(4)]
    show ?thesis .
  qed
qed

lemma pruneIntersection_keeps:
  assumes "pruneIntersection rs cs x y = (rs', cs', pruned)"
    and "lr \<in> set rs" and "lc \<in> set cs" and "js_nth lr y = js_nth lc x"
  shows "lr \<in> set rs' \<and> lc \<in> set cs'"
proof -
  let ?I = "getPossibleColors cs x \<inter> getPossibleColors rs y"
  from assms(2) have "js_nth lr y \<in> getPossibleColors rs y"
    unfolding getPossibleColors_eq by (rule imageI)
  moreover from assms(3) have "js_nth lc x \<in> getPossibleColors cs x"
    unfolding getPossibleColors_eq by (rule imageI)
  ultimately have "js_nth lr y \<in> ?I" "js_nth lc x \<in> ?I"
    using assms(4) by simp_all
  moreover from assms(1) have "rs' = filter (\<lambda>soln. js_nth soln y \<in> ?I) rs"
    "cs' = filter (\<lambda>soln. js_nth soln x \<in> ?I) cs"
    by (simp_all add: pruneIntersection_def pruneByColors_def Let_def)
  ultimately show ?thesis using assms(2,3) by simp
qed

lemma arcPass_keeps:
  "arcPass ps (rm, cm, pc) = Inr (rm', cm', pc') \<Longrightarrow> holds fr rm \<Longrightarrow> holds fc cm
   \<Longrightarrow> list_all (\<lambda>(x, y). js_nth (fr x) y = js_nth (fc y) x) ps
   \<Longrightarrow> holds fr rm' \<and> holds fc cm'"
proof (induction ps arbitrary: rm cm pc)
  case Nil
  then show ?case by simp
next
  case (Cons p ps)
  obtain x y where p: "p = (x, y)" by (cases p)
  from Cons.prems(1) p obtain cs where cs: "lookup cm y = Some cs"
    by (auto split: option.splits)
  from Cons.prems(1) p cs obtain rs where rs: "lookup rm x = Some rs"
    by (auto split: option.splits)
  obtain rs' cs' pruned where pi: "pruneIntersection rs cs x y = (rs', cs', pruned)"
    by (cases "pruneIntersection rs cs x y")
  from Cons.prems(1) p cs rs pi
  have a: "arcPass ps (rm[x := Some rs'], cm[y := Some cs'], pc + pruned) = Inr (rm', cm', pc')"
    by simp
  from Cons.prems(4) p have cross: "js_nth (fr x) y = js_nth (fc y) x"
    and rest: "list_all (\<lambda>(x, y). js_nth (fr x) y = js_nth (fc y) x) ps" by simp_all
  from pruneIntersection_keeps[OF pi holds_lookup[OF Cons.prems(2) rs]
      holds_lookup[OF Cons.prems(3) cs] cross]
  have k: "fr x \<in> set rs'" "fc y \<in> set cs'" by simp_all
  from Cons.IH[OF a holds_update_Some[OF Cons.prems(2) k(1)]
      holds_update_Some[OF Cons.prems(3) k(2)] rest]
  show ?case .
qed

lemma retireLines_length:
  "retireLines d snap moves other (m, uc, pc) = Inr (m', uc', pc') \<Longrightarrow> length m' = length m"
proof (induction snap arbitrary: m uc pc)
  case Nil
  then show ?case by simp
next
  case (Cons e snap)
  obtain i solns where e: "e = (i, solns)" by (cases e)
  show ?case
  proof (cases "isLineSolved solns")
    case True
    with Cons.prems(1) e
    have "retireLines d snap moves other (m[i := None], uc - 1, pc + 1) = Inr (m', uc', pc')"
      by simp
    from Cons.IH[OF this] show ?thesis by simp
  next
    case False
    with Cons.prems(1) e have nc: "\<not> isLineConflict solns"
      by (auto split: if_splits)
    obtain solns' pruned where p:
      "(case d of DimX \<Rightarrow> pruneRowByMoves solns (movesForRow i moves)
                | DimY \<Rightarrow> pruneColByMoves solns (movesForCol i moves)) = (solns', pruned)"
      by (cases "(case d of DimX \<Rightarrow> pruneRowByMoves solns (movesForRow i moves)
                | DimY \<Rightarrow> pruneColByMoves solns (movesForCol i moves))")
    from Cons.prems(1) e False nc p
    have r: "retireLines d snap moves other (m[i := Some solns'], uc, pc + pruned) = Inr (m', uc', pc')"
      by simp
    from Cons.IH[OF r] show ?thesis by simp
  qed
qed

lemma arcPass_length:
  "arcPass ps (rm, cm, pc) = Inr (rm', cm', pc')
   \<Longrightarrow> length rm' = length rm \<and> length cm' = length cm"
proof (induction ps arbitrary: rm cm pc)
  case Nil
  then show ?case by simp
next
  case (Cons p ps)
  obtain x y where p: "p = (x, y)" by (cases p)
  from Cons.prems(1) p obtain cs where cs: "lookup cm y = Some cs"
    by (auto split: option.splits)
  from Cons.prems(1) p cs obtain rs where rs: "lookup rm x = Some rs"
    by (auto split: option.splits)
  obtain rs' cs' pruned where pi: "pruneIntersection rs cs x y = (rs', cs', pruned)"
    by (cases "pruneIntersection rs cs x y")
  from Cons.prems(1) p cs rs pi
  have a: "arcPass ps (rm[x := Some rs'], cm[y := Some cs'], pc + pruned) = Inr (rm', cm', pc')"
    by simp
  from Cons.IH[OF a] show ?case by simp
qed

lemma agrees_row_line: "agrees S m \<Longrightarrow> line_agrees DimX (\<lambda>x. S ! x) m"
  by (auto simp: agrees_def line_agrees_def cell_def tile_def otherDim_def js_nth_def
           split: if_splits)

lemma agrees_col_line: "agrees S m \<Longrightarrow> line_agrees DimY (board_column S) m"
  by (auto simp: agrees_def line_agrees_def cell_def tile_def otherDim_def js_nth_def
        board_column_def split: if_splits)

lemma crossing:
  assumes "shaped S w" "x < length S" "y < w"
  shows "js_nth (S ! x) y = js_nth (board_column S y) x"
proof -
  from assms have "length (S ! x) = w" by (auto simp: shaped_def list_all_iff)
  with assms show ?thesis by (simp add: js_nth_def board_column_def)
qed

lemma keys_set: "set (keys m) = {i. i < length m \<and> m ! i \<noteq> None}"
  by (auto simp: keys_def values_of_set image_iff)

lemma extractMoves_agree:
  assumes inv: "solution_inv S w st" and ex: "extractMoves st = Inr (rowMoves, colMoves)"
  shows "list_all (agrees S) rowMoves \<and> list_all (agrees S) colMoves"
proof -
  from inv have sh: "shaped S w" and lr: "length (rowMap st) \<le> length S"
    and lc: "length (colMap st) \<le> w"
    and hr: "holds (\<lambda>x. S ! x) (rowMap st)" and hc: "holds (board_column S) (colMap st)"
    by (simp_all add: solution_inv_def)
  from ex have
    r: "collectMoves (\<lambda>x solns. findMovesFromRow x (keys (colMap st)) solns) (values_of (rowMap st))
          = Inr rowMoves"
    and c: "collectMoves (\<lambda>y solns. findMovesFromCol y (keys (rowMap st)) solns) (values_of (colMap st))
          = Inr colMoves"
    by (auto simp: extractMoves_def Let_def split: sum.splits)
  have "agrees S m" if "m \<in> set rowMoves" for m
  proof -
    from collectMoves_set[OF r that] obtain x solns ms where
      x: "(x, solns) \<in> set (values_of (rowMap st))"
      and f: "findMovesFromRow x (keys (colMap st)) solns = Inr ms" and m: "m \<in> set ms"
      by blast
    from x have xl: "x < length (rowMap st)" "rowMap st ! x = Some solns"
      by (simp_all add: values_of_set)
    with hr have "S ! x \<in> set solns" by (auto simp: holds_iff)
    from findValidMoves_agree[OF f[unfolded findMovesFromRow_def] this m]
    obtain i v where "m = Move x i v" "js_nth (S ! x) i = Some v" by blast
    with xl lr show ?thesis by (simp add: agrees_def cell_def js_nth_def)
  qed
  moreover have "agrees S m" if "m \<in> set colMoves" for m
  proof -
    from collectMoves_set[OF c that] obtain y solns ms where
      y: "(y, solns) \<in> set (values_of (colMap st))"
      and f: "findMovesFromCol y (keys (rowMap st)) solns = Inr ms" and m: "m \<in> set ms"
      by blast
    from y have yl: "y < length (colMap st)" "colMap st ! y = Some solns"
      by (simp_all add: values_of_set)
    with hc have "board_column S y \<in> set solns" by (auto simp: holds_iff)
    from findValidMoves_agree[OF f[unfolded findMovesFromCol_def] this m]
    obtain i v where mv: "m = Move i y v" and j: "js_nth (board_column S y) i = Some v" by blast
    from j have i: "i < length S" by (auto simp: js_nth_def board_column_def split: if_splits)
    from yl lc have "y < w" by simp
    from crossing[OF sh i this] j have "js_nth (S ! i) y = Some v" by simp
    with mv i show ?thesis by (simp add: agrees_def cell_def js_nth_def)
  qed
  ultimately show ?thesis by (simp add: list_all_iff)
qed

lemma pruneRound_keeps:
  assumes inv: "solution_inv S w st"
    and ar: "list_all (agrees S) rowMoves" and ac: "list_all (agrees S) colMoves"
    and pr: "pruneRound st rowMoves colMoves = Inr st'"
  shows "solution_inv S w st'"
proof -
  from inv have sh: "shaped S w" and lr: "length (rowMap st) \<le> length S"
    and lc: "length (colMap st) \<le> w"
    and hr: "holds (\<lambda>x. S ! x) (rowMap st)" and hc: "holds (board_column S) (colMap st)"
    by (simp_all add: solution_inv_def)
  from ac have lac: "list_all (line_agrees DimX (\<lambda>x. S ! x)) colMoves"
    by (auto simp: list_all_iff intro: agrees_row_line)
  from ar have lar: "list_all (line_agrees DimY (board_column S)) rowMoves"
    by (auto simp: list_all_iff intro: agrees_col_line)
  from pr obtain rows1 rowCount pruned1 where
    r: "retireLines DimX (values_of (rowMap st)) colMoves (colMap st)
             (rowMap st, unsolvedRowCount st, 0) = Inr (rows1, rowCount, pruned1)"
    by (auto simp: pruneRound_def split: sum.splits)
  from pr r obtain cols1 colCount pruned2 where
    c: "retireLines DimY (values_of (colMap st)) rowMoves rows1
                  (colMap st, unsolvedColCount st, pruned1) = Inr (cols1, colCount, pruned2)"
    by (auto simp: pruneRound_def split: sum.splits)
  from hr have sr: "list_all (\<lambda>(i, solns). S ! i \<in> set solns) (values_of (rowMap st))"
    by (simp add: holds_def)
  from hc have sc: "list_all (\<lambda>(i, solns). board_column S i \<in> set solns) (values_of (colMap st))"
    by (simp add: holds_def)
  note h1 = retireLines_keeps[OF r hr sr lac] and l1 = retireLines_length[OF r]
  note h2 = retireLines_keeps[OF c hc sc lar] and l2 = retireLines_length[OF c]
  show ?thesis
  proof (cases "pruned2 > 0")
    case True
    with pr r c have "st' = \<lparr>rowMap = rows1, colMap = cols1,
                      unsolvedRowCount = rowCount, unsolvedColCount = colCount\<rparr>"
      by (simp add: pruneRound_def)
    with sh lr lc h1 h2 l1 l2 show ?thesis by (simp add: solution_inv_def)
  next
    case False
    with pr r c obtain rows2 cols2 pruned3 where
      a: "arcPass (List.product (keys (rowMap st)) (keys (colMap st))) (rows1, cols1, pruned2)
            = Inr (rows2, cols2, pruned3)"
      by (auto simp: pruneRound_def split: sum.splits)
    with pr r c False have
      st': "st' = \<lparr>rowMap = rows2, colMap = cols2,
                      unsolvedRowCount = rowCount, unsolvedColCount = colCount\<rparr>"
      by (auto simp: pruneRound_def split: if_splits)
    have cross: "list_all (\<lambda>(x, y). js_nth (S ! x) y = js_nth (board_column S y) x)
        (List.product (keys (rowMap st)) (keys (colMap st)))"
      using lr lc crossing[OF sh] by (auto simp: list_all_iff keys_set)
    from arcPass_keeps[OF a h1 h2 cross] arcPass_length[OF a] st' sh lr lc l1 l2
    show ?thesis by (simp add: solution_inv_def)
  qed
qed

lemma solverRound_sound:
  assumes inv: "solution_inv S w st" and sr: "solverRound st b = (ys, b', z)"
  shows "list_all (agrees S) ys \<and> (\<forall>st'. z = Inr st' \<longrightarrow> solution_inv S w st')"
proof (cases "extractMoves st")
  case (Inl e)
  with sr show ?thesis by (auto simp: solverRound_def)
next
  case (Inr mv)
  obtain rowMoves colMoves where mv: "mv = (rowMoves, colMoves)" by (cases mv)
  note ag = extractMoves_agree[OF inv Inr[unfolded mv]]
  obtain ys1 b1 e1 where ap: "applyMoves rowMoves colMoves b = (ys1, b1, e1)"
    by (cases "applyMoves rowMoves colMoves b")
  from applyMoves_subset[OF ap] ag have 1: "list_all (agrees S) ys1"
    by (auto simp: list_all_iff)
  show ?thesis
  proof (cases e1)
    case (Some err)
    with sr Inr mv ap 1 show ?thesis by (auto simp: solverRound_def)
  next
    case None
    with sr Inr mv ap have "ys = ys1" "z = pruneRound st rowMoves colMoves"
      by (simp_all add: solverRound_def)
    with 1 pruneRound_keeps[OF inv ag[THEN conjunct1] ag[THEN conjunct2]] show ?thesis
      by auto
  qed
qed

lemma generateMoves_loop_sound:
  "solution_inv S w st \<Longrightarrow> list_all (agrees S) (yielded (generateMoves_loop st b))"
proof (induction st b rule: generateMoves_loop.induct)
  case (1 st b)
  note unfold = generateMoves_loop.simps[of st b]
  show ?case
  proof (cases "unsolvedRowCount st \<noteq> 0 \<and> unsolvedColCount st \<noteq> 0")
    case False
    then show ?thesis unfolding unfold by auto
  next
    case True
    obtain ys b' z where sr: "solverRound st b = (ys, b', z)"
      by (cases "solverRound st b")
    note snd = solverRound_sound[OF "1.prems" sr]
    show ?thesis
    proof (cases z)
      case (Inl e)
      with True sr snd show ?thesis unfolding unfold by simp
    next
      case (Inr st')
      with snd have "solution_inv S w st'" by simp
      from "1.IH"[OF True sr[symmetric] refl Inr this] snd True sr Inr
      show ?thesis unfolding unfold by (simp add: Let_def)
    qed
  qed
qed

lemma initialState_inv:
  assumes "is_solution rules S"
  shows "solution_inv S (length (column rules)) (initialState rules)"
proof -
  let ?w = "length (column rules)"
  from assms have sh: "shaped S ?w" and rows: "list_all2 realizes S (row rules)"
    and cols: "list_all2 realizes (map (board_column S) [0..<?w]) (column rules)"
    by (simp_all add: is_solution_def shaped_def)
  from rows have len: "length S = length (row rules)" by (rule list_all2_lengthD)
  have "S ! x \<in> set (generateLineSolns ?w (row rules ! x))" if "x < length (row rules)" for x
  proof -
    from that len sh have "length (S ! x) = ?w" by (auto simp: shaped_def list_all_iff)
    moreover from rows that have "realizes (S ! x) (row rules ! x)"
      by (simp add: list_all2_conv_all_nth)
    ultimately show ?thesis by (rule generateLineSolns_holds_realizing)
  qed
  then have hr: "holds (\<lambda>x. S ! x) (rowMap (initialState rules))"
    by (auto simp: holds_iff initialState_def Let_def)
  have "board_column S y \<in> set (generateLineSolns (length (row rules)) (column rules ! y))"
    if "y < ?w" for y
  proof -
    have "length (board_column S y) = length (row rules)" by (simp add: board_column_def len)
    moreover from cols that have "realizes (board_column S y) (column rules ! y)"
      by (auto simp: list_all2_conv_all_nth)
    ultimately show ?thesis by (rule generateLineSolns_holds_realizing)
  qed
  then have hc: "holds (board_column S) (colMap (initialState rules))"
    by (auto simp: holds_iff initialState_def Let_def)
  from sh hr hc len show ?thesis by (simp add: solution_inv_def initialState_def Let_def)
qed

text \<open>
  C6, as amended. If the rules have a full-board solution, then every move that
  \<open>generateMoves\<close> yields, on whatever board it is given, sets its tile to the value the
  solution has there. This holds for every solution of the rules, so a yielded move
  never has to be undone.
\<close>

theorem generateMoves_sound:
  assumes "is_solution rules S"
  shows "list_all (agrees S) (yielded (generateMoves rules b))"
  unfolding generateMoves_def
  by (rule generateMoves_loop_sound[OF initialState_inv[OF assms]])

theorem generateMoves_sound_witness:
  "is_solution \<lparr>column = [[RuleEntry 1 1], [RuleEntry 1 1]], row = [[], [RuleEntry 2 1]]\<rparr>
       [[- 1, - 1], [1, 1]]
   \<and> yielded (generateMoves
        \<lparr>column = [[RuleEntry 1 1], [RuleEntry 1 1]], row = [[], [RuleEntry 2 1]]\<rparr>
        [[0, 0], [0, 0]])
       = [Move 0 0 (- 1), Move 0 1 (- 1), Move 1 0 1, Move 1 1 1]
   \<and> list_all (agrees [[- 1, - 1], [1, 1]])
        (yielded (generateMoves
          \<lparr>column = [[RuleEntry 1 1], [RuleEntry 1 1]], row = [[], [RuleEntry 2 1]]\<rparr>
          [[0, 0], [0, 0]]))"
proof -
  have h: "is_solution \<lparr>column = [[RuleEntry 1 1], [RuleEntry 1 1]], row = [[], [RuleEntry 2 1]]\<rparr>
       [[- 1, - 1], [1, 1]]" by code_simp
  have v: "yielded (generateMoves
        \<lparr>column = [[RuleEntry 1 1], [RuleEntry 1 1]], row = [[], [RuleEntry 2 1]]\<rparr>
        [[0, 0], [0, 0]])
       = [Move 0 0 (- 1), Move 0 1 (- 1), Move 1 0 1, Move 1 1 1]" by code_simp
  note c = generateMoves_sound[OF h, of "[[0, 0], [0, 0]]"]
  show ?thesis by (intro conjI) (rule h v c)+
qed

text \<open>
  C6 as stated fails for rules without a solution: one row with the clue "one tile of
  colour 1" and one column with the empty clue have none, and the move that sets the
  only tile to colour 1 is yielded all the same.
\<close>

theorem generateMoves_yields_without_solution:
  "yielded (generateMoves \<lparr>column = [[]], row = [[RuleEntry 1 1]]\<rparr> [[0]]) = [Move 0 0 1]
   \<and> \<not> (\<exists>S. is_solution \<lparr>column = [[]], row = [[RuleEntry 1 1]]\<rparr> S)"
proof
  show "yielded (generateMoves \<lparr>column = [[]], row = [[RuleEntry 1 1]]\<rparr> [[0]]) = [Move 0 0 1]"
    by code_simp
  show "\<not> (\<exists>S. is_solution \<lparr>column = [[]], row = [[RuleEntry 1 1]]\<rparr> S)"
  proof
    assume "\<exists>S. is_solution \<lparr>column = [[]], row = [[RuleEntry 1 1]]\<rparr> S"
    then obtain S where s: "is_solution \<lparr>column = [[]], row = [[RuleEntry 1 1]]\<rparr> S" ..
    then obtain r where S: "S = [r]" and rr: "realizes r [RuleEntry 1 1]"
      by (auto simp: is_solution_def list_all2_Cons2)
    from s S have cr: "realizes (board_column [r] 0) []"
      by (simp add: is_solution_def)
    from s S have "length r = 1" by (simp add: is_solution_def)
    then obtain c where r: "r = [c]" by (cases r) auto
    from cr r have "line_runs [c] = []" by (simp add: realizes_def board_column_def)
    from line_runs_Nil[OF this] have "c = - 1" by simp
    with rr r show False by (simp add: realizes_def line_runs_def)
  qed
qed

section \<open>A normal end on a fitting board gives the solution\<close>

lemma cell_Some_iff:
  "cell b x y = Some v \<longleftrightarrow> x < length b \<and> y < length (b ! x) \<and> b ! x ! y = v"
  by (auto simp: cell_def js_nth_def)

lemma cell_None_iff:
  "cell b x y = None \<longleftrightarrow> \<not> (x < length b \<and> y < length (b ! x))"
  by (auto simp: cell_def js_nth_def)

lemma fits_iff:
  "fits S b \<longleftrightarrow> length b = length S
     \<and> (\<forall>x < length S. length (b ! x) = length (S ! x)
           \<and> (\<forall>y < length (S ! x). b ! x ! y = 0 \<or> b ! x ! y = S ! x ! y))"
  by (auto simp: fits_def list_all2_conv_all_nth)

lemma fits_cell:
  assumes "fits S b" "cell S x y = Some v"
  shows "cell b x y = Some 0 \<or> cell b x y = Some v"
  using assms by (auto simp: fits_iff cell_Some_iff)

lemma fits_write:
  assumes f: "fits S b" and c: "cell S x y = Some v"
  shows "fits S (b[x := (b ! x)[y := v]])"
  unfolding fits_iff
proof (intro conjI allI impI)
  from f show "length (b[x := (b ! x)[y := v]]) = length S" by (simp add: fits_iff)
next
  fix i assume i: "i < length S"
  with f show "length (b[x := (b ! x)[y := v]] ! i) = length (S ! i)"
    by (cases "i = x") (simp_all add: fits_iff)
next
  fix i j assume i: "i < length S" and j: "j < length (S ! i)"
  from f i have li: "i < length b" "length (b ! i) = length (S ! i)" by (simp_all add: fits_iff)
  show "b[x := (b ! x)[y := v]] ! i ! j = 0 \<or> b[x := (b ! x)[y := v]] ! i ! j = S ! i ! j"
  proof (cases "i = x \<and> j = y")
    case True
    with c li j show ?thesis by (simp add: cell_Some_iff)
  next
    case False
    then have "b[x := (b ! x)[y := v]] ! i ! j = b ! i ! j"
      using li by (cases "i = x") auto
    with f i j show ?thesis by (simp add: fits_iff)
  qed
qed

lemma fits_eq:
  assumes "fits S b" and "\<And>x y. x < length S \<Longrightarrow> y < length (S ! x) \<Longrightarrow> cell b x y = cell S x y"
  shows "b = S"
proof (rule nth_equalityI)
  from assms(1) show "length b = length S" by (simp add: fits_iff)
next
  fix x assume "x < length b"
  with assms(1) have x: "x < length S" "x < length b" "length (b ! x) = length (S ! x)"
    by (simp_all add: fits_iff)
  show "b ! x = S ! x"
  proof (rule nth_equalityI)
    show "length (b ! x) = length (S ! x)" by (rule x(3))
  next
    fix y assume "y < length (b ! x)"
    with x have y: "y < length (S ! x)" by simp
    from assms(2)[OF x(1) y] x y show "b ! x ! y = S ! x ! y"
      by (simp add: cell_def js_nth_def)
  qed
qed

lemma yieldMoves_fits:
  "fits S b \<Longrightarrow> list_all (agrees S) ms \<Longrightarrow> yieldMoves ms b = (ys, b', e)
   \<Longrightarrow> e = None \<and> fits S b'
       \<and> (\<forall>x y. cell b x y = cell S x y \<longrightarrow> cell b' x y = cell S x y)
       \<and> list_all (agrees b') ms"
proof (induction ms arbitrary: b ys b' e)
  case Nil
  then show ?case by simp
next
  case (Cons m ms)
  let ?x = "tile_x m" and ?y = "tile_y m" and ?v = "nxt m"
  from Cons.prems(2) have am: "agrees S m" and rest: "list_all (agrees S) ms"
    by simp_all
  from am have cS: "cell S ?x ?y = Some ?v" by (simp add: agrees_def)
  note cb = fits_cell[OF Cons.prems(1) cS]
  then have xb: "?x < length b" by (auto simp: cell_Some_iff)
  then have r: "js_nth b ?x = Some (b ! ?x)" by (simp add: js_nth_def)
  show ?case
  proof (cases "js_nth (b ! ?x) ?y = Some 0")
    case False
    with r have "cell b ?x ?y \<noteq> Some 0" by (simp add: cell_def)
    with cb cS have eq: "cell b ?x ?y = cell S ?x ?y" by simp
    from Cons.prems(3) r False have y: "yieldMoves ms b = (ys, b', e)" by simp
    from Cons.IH[OF Cons.prems(1) rest y] eq cS show ?thesis by (simp add: agrees_def)
  next
    case True
    let ?b2 = "b[?x := (b ! ?x)[?y := ?v]]"
    obtain ys' b3 e3 where y: "yieldMoves ms ?b2 = (ys', b3, e3)"
      by (cases "yieldMoves ms ?b2")
    with Cons.prems(3) r True have res: "b' = b3" "e = e3" by simp_all
    from True r have c0: "cell b ?x ?y = Some 0" by (simp add: cell_def)
    have f2: "fits S ?b2" by (rule fits_write[OF Cons.prems(1) cS])
    note IH = Cons.IH[OF f2 rest y]
    have c2: "cell ?b2 ?x ?y = cell S ?x ?y" using c0 cS by (simp add: cell_update)
    have keep: "cell ?b2 x y = cell S x y" if "cell b x y = cell S x y" for x y
      using that c0 cS by (auto simp: cell_update)
    from IH c2 keep res cS show ?thesis by (simp add: agrees_def)
  qed
qed

lemma applyMoves_fits:
  assumes f: "fits S b" and ar: "list_all (agrees S) rowMoves" and ac: "list_all (agrees S) colMoves"
    and ap: "applyMoves rowMoves colMoves b = (ys, b', e)"
  shows "e = None \<and> fits S b'
       \<and> (\<forall>x y. cell b x y = cell S x y \<longrightarrow> cell b' x y = cell S x y)
       \<and> list_all (\<lambda>m. cell b' (tile_x m) (tile_y m) = cell S (tile_x m) (tile_y m))
            (rowMoves @ colMoves)"
proof -
  obtain ys1 b1 e1 where y1: "yieldMoves rowMoves b = (ys1, b1, e1)"
    by (cases "yieldMoves rowMoves b")
  from yieldMoves_fits[OF f ar y1] have 1: "e1 = None" "fits S b1"
    "\<forall>x y. cell b x y = cell S x y \<longrightarrow> cell b1 x y = cell S x y" "list_all (agrees b1) rowMoves"
    by simp_all
  obtain ys2 b2 e2 where y2: "yieldMoves colMoves b1 = (ys2, b2, e2)"
    by (cases "yieldMoves colMoves b1")
  from yieldMoves_fits[OF 1(2) ac y2] have 2: "e2 = None" "fits S b2"
    "\<forall>x y. cell b1 x y = cell S x y \<longrightarrow> cell b2 x y = cell S x y" "list_all (agrees b2) colMoves"
    by simp_all
  from ap y1 y2 1(1) have res: "b' = b2" "e = e2" by (simp_all add: applyMoves_def)
  have r: "cell b2 (tile_x m) (tile_y m) = cell S (tile_x m) (tile_y m)" if "m \<in> set rowMoves" for m
  proof -
    from that 1(4) ar have "cell b1 (tile_x m) (tile_y m) = Some (nxt m)"
      "cell S (tile_x m) (tile_y m) = Some (nxt m)"
      by (auto simp: list_all_iff agrees_def)
    with 2(3) show ?thesis by simp
  qed
  have c: "cell b2 (tile_x m) (tile_y m) = cell S (tile_x m) (tile_y m)" if "m \<in> set colMoves" for m
    using that 2(4) ac by (auto simp: list_all_iff agrees_def)
  from 1 2 res r c show ?thesis by (auto simp: list_all_iff)
qed

lemma findValidMoves_single:
  "i < length l \<Longrightarrow> i \<in> set idx
   \<Longrightarrow> \<exists>ms. findValidMoves [l] idx mapper = Inr ms \<and> mapper i (l ! i) \<in> set ms"
  by (auto simp: findValidMoves_def allEqualAt_def intro!: bexI[of _ i])

lemma collectMoves_mem:
  "collectMoves f snap = Inr ms \<Longrightarrow> (i, solns) \<in> set snap \<Longrightarrow> f i solns = Inr ms'
   \<Longrightarrow> set ms' \<subseteq> set ms"
proof (induction snap arbitrary: ms)
  case Nil
  then show ?case by simp
next
  case (Cons e snap)
  obtain j s where e: "e = (j, s)" by (cases e)
  from Cons.prems(1) e obtain ms1 ms2 where
    1: "f j s = Inr ms1" and 2: "collectMoves f snap = Inr ms2" and ms: "ms = ms1 @ ms2"
    by (auto split: sum.splits)
  from Cons.prems(2) e consider "(i, solns) = (j, s)" | "(i, solns) \<in> set snap" by auto
  then show ?case
  proof cases
    case 1
    with \<open>f j s = Inr ms1\<close> Cons.prems(3) ms show ?thesis by auto
  next
    case 2
    from Cons.IH[OF \<open>collectMoves f snap = Inr ms2\<close> 2 Cons.prems(3)] ms show ?thesis by auto
  qed
qed

lemma live_sum: "live m = sum_list (map (\<lambda>e. case e of None \<Rightarrow> 0 | Some _ \<Rightarrow> 1) m)"
proof -
  have "length (concat (map (\<lambda>(i, e). case e of None \<Rightarrow> [] | Some solns \<Rightarrow> [(i, solns)])
           (enumerate n (xs :: SolutionMap))))
        = sum_list (map (\<lambda>e. case e of None \<Rightarrow> 0 | Some _ \<Rightarrow> 1) xs)" for n xs
    by (induction xs arbitrary: n) (auto split: option.splits)
  then show ?thesis by (simp add: live_def values_of_def)
qed

lemma live_update:
  "i < length m \<Longrightarrow> int (live (m[i := v]))
     = int (live m) - (case m ! i of None \<Rightarrow> 0 | Some _ \<Rightarrow> 1) + (case v of None \<Rightarrow> 0 | Some _ \<Rightarrow> 1)"
proof (induction m arbitrary: i)
  case Nil
  then show ?case by simp
next
  case (Cons a m)
  then show ?case by (cases i) (auto simp: live_sum split: option.splits)
qed

lemma live_0: "live m = 0 \<Longrightarrow> i < length m \<Longrightarrow> m ! i = None"
proof -
  assume "live m = 0" "i < length m"
  then have "values_of m = []" by (simp add: live_def)
  then have "(i, s) \<notin> set (values_of m)" for s by simp
  with \<open>i < length m\<close> show ?thesis by (cases "m ! i") (auto simp: values_of_set)
qed

lemma snapshot_of_Cons:
  assumes "snapshot_of ((i, solns) # snap) m"
  shows "i < length m" "m ! i = Some solns" "i \<notin> fst ` set snap" "snapshot_of snap (m[i := v])"
proof -
  from assms show i: "i < length m" "m ! i = Some solns"
    and d: "i \<notin> fst ` set snap"
    by (auto simp: snapshot_of_def)
  from assms have dd: "distinct (map fst snap)"
    and rest: "list_all (\<lambda>(j, s). j < length m \<and> m ! j = Some s) snap"
    by (auto simp: snapshot_of_def)
  have "j < length m \<and> m[i := v] ! j = Some s" if "(j, s) \<in> set snap" for j s
  proof -
    from that d have "j \<noteq> i" by force
    with that rest show ?thesis by (auto simp: list_all_iff)
  qed
  with dd show "snapshot_of snap (m[i := v])" by (auto simp: snapshot_of_def list_all_iff)
qed

lemma retireLines_entries:
  "retireLines d snap moves other (m, uc, pc) = Inr (m', uc', pc') \<Longrightarrow> snapshot_of snap m
   \<Longrightarrow> uc' - int (live m') = uc - int (live m)
       \<and> (\<forall>j < length m. m' ! j = None
              \<longleftrightarrow> m ! j = None \<or> (\<exists>s. (j, s) \<in> set snap \<and> isLineSolved s))"
proof (induction snap arbitrary: m uc pc)
  case Nil
  then show ?case by simp
next
  case (Cons e snap)
  obtain i solns where e: "e = (i, solns)" by (cases e)
  note sn = snapshot_of_Cons[OF Cons.prems(2)[unfolded e]]
  show ?case
  proof (cases "isLineSolved solns")
    case True
    with Cons.prems(1) e
    have r: "retireLines d snap moves other (m[i := None], uc - 1, pc + 1) = Inr (m', uc', pc')"
      by simp
    note IH = Cons.IH[OF r sn(4)]
    from IH live_update[OF sn(1), of None] sn(2)
    have 1: "uc' - int (live m') = uc - int (live m)" by simp
    have 2: "m' ! j = None \<longleftrightarrow> m ! j = None \<or> (\<exists>s. (j, s) \<in> set (e # snap) \<and> isLineSolved s)"
      if "j < length m" for j
    proof (cases "j = i")
      case True
      with IH that \<open>isLineSolved solns\<close> e show ?thesis by auto
    next
      case False
      with IH that e show ?thesis by auto
    qed
    from 1 2 show ?thesis by blast
  next
    case False
    with Cons.prems(1) e have nc: "\<not> isLineConflict solns"
      by (auto split: if_splits)
    obtain solns' pruned where p:
      "(case d of DimX \<Rightarrow> pruneRowByMoves solns (movesForRow i moves)
                | DimY \<Rightarrow> pruneColByMoves solns (movesForCol i moves)) = (solns', pruned)"
      by (cases "(case d of DimX \<Rightarrow> pruneRowByMoves solns (movesForRow i moves)
                | DimY \<Rightarrow> pruneColByMoves solns (movesForCol i moves))")
    from Cons.prems(1) e False nc p
    have r: "retireLines d snap moves other (m[i := Some solns'], uc, pc + pruned) = Inr (m', uc', pc')"
      by simp
    note IH = Cons.IH[OF r sn(4)]
    from IH live_update[OF sn(1), of "Some solns'"] sn(2)
    have 1: "uc' - int (live m') = uc - int (live m)" by simp
    have 2: "m' ! j = None \<longleftrightarrow> m ! j = None \<or> (\<exists>s. (j, s) \<in> set (e # snap) \<and> isLineSolved s)"
      if "j < length m" for j
    proof (cases "j = i")
      case True
      from sn(3) have "\<And>s. (i, s) \<notin> set snap" by force
      with True IH that False e sn(2) show ?thesis by auto
    next
      case False
      with IH that e show ?thesis by auto
    qed
    from 1 2 show ?thesis by blast
  qed
qed

lemma arcPass_entries:
  "arcPass ps (rm, cm, pc) = Inr (rm', cm', pc')
   \<Longrightarrow> live rm' = live rm \<and> live cm' = live cm
       \<and> (\<forall>j < length rm. rm' ! j = None \<longleftrightarrow> rm ! j = None)
       \<and> (\<forall>j < length cm. cm' ! j = None \<longleftrightarrow> cm ! j = None)"
proof (induction ps arbitrary: rm cm pc)
  case Nil
  then show ?case by simp
next
  case (Cons p ps)
  obtain x y where p: "p = (x, y)" by (cases p)
  from Cons.prems(1) p obtain cs where cs: "lookup cm y = Some cs"
    by (auto split: option.splits)
  from Cons.prems(1) p cs obtain rs where rs: "lookup rm x = Some rs"
    by (auto split: option.splits)
  obtain rs' cs' pruned where pi: "pruneIntersection rs cs x y = (rs', cs', pruned)"
    by (cases "pruneIntersection rs cs x y")
  from Cons.prems(1) p cs rs pi
  have a: "arcPass ps (rm[x := Some rs'], cm[y := Some cs'], pc + pruned) = Inr (rm', cm', pc')"
    by simp
  from rs have x: "x < length rm" "rm ! x = Some rs" by (simp_all add: lookup_Some)
  from cs have y: "y < length cm" "cm ! y = Some cs" by (simp_all add: lookup_Some)
  note IH = Cons.IH[OF a]
  from live_update[OF x(1), of "Some rs'"] x(2) have lr: "live (rm[x := Some rs']) = live rm"
    by simp
  from live_update[OF y(1), of "Some cs'"] y(2) have lc: "live (cm[y := Some cs']) = live cm"
    by simp
  have nr: "rm[x := Some rs'] ! j = None \<longleftrightarrow> rm ! j = None" if "j < length rm" for j
    using that x by (cases "j = x") auto
  have nc: "cm[y := Some cs'] ! j = None \<longleftrightarrow> cm ! j = None" if "j < length cm" for j
    using that y by (cases "j = y") auto
  from IH lr lc nr nc show ?case by simp
qed

lemma pruneRound_entries:
  assumes pr: "pruneRound st rowMoves colMoves = Inr st'"
  shows "length (rowMap st') = length (rowMap st) \<and> length (colMap st') = length (colMap st)
    \<and> unsolvedRowCount st' - int (live (rowMap st')) = unsolvedRowCount st - int (live (rowMap st))
    \<and> unsolvedColCount st' - int (live (colMap st')) = unsolvedColCount st - int (live (colMap st))
    \<and> (\<forall>x < length (rowMap st). rowMap st' ! x = None
          \<longleftrightarrow> rowMap st ! x = None \<or> (\<exists>s. rowMap st ! x = Some s \<and> isLineSolved s))
    \<and> (\<forall>y < length (colMap st). colMap st' ! y = None
          \<longleftrightarrow> colMap st ! y = None \<or> (\<exists>s. colMap st ! y = Some s \<and> isLineSolved s))"
proof -
  from pr obtain rows1 rowCount pruned1 where
    r: "retireLines DimX (values_of (rowMap st)) colMoves (colMap st)
             (rowMap st, unsolvedRowCount st, 0) = Inr (rows1, rowCount, pruned1)"
    by (auto simp: pruneRound_def split: sum.splits)
  from pr r obtain cols1 colCount pruned2 where
    c: "retireLines DimY (values_of (colMap st)) rowMoves rows1
                  (colMap st, unsolvedColCount st, pruned1) = Inr (cols1, colCount, pruned2)"
    by (auto simp: pruneRound_def split: sum.splits)
  note e1 = retireLines_entries[OF r snapshot_of_values] and l1 = retireLines_length[OF r]
  note e2 = retireLines_entries[OF c snapshot_of_values] and l2 = retireLines_length[OF c]
  have n1: "\<forall>x < length (rowMap st). rows1 ! x = None
          \<longleftrightarrow> rowMap st ! x = None \<or> (\<exists>s. rowMap st ! x = Some s \<and> isLineSolved s)"
    using e1 by (simp add: values_of_set)
  have n2: "\<forall>y < length (colMap st). cols1 ! y = None
          \<longleftrightarrow> colMap st ! y = None \<or> (\<exists>s. colMap st ! y = Some s \<and> isLineSolved s)"
    using e2 by (simp add: values_of_set)
  show ?thesis
  proof (cases "pruned2 > 0")
    case True
    with pr r c have "st' = \<lparr>rowMap = rows1, colMap = cols1,
                      unsolvedRowCount = rowCount, unsolvedColCount = colCount\<rparr>"
      by (simp add: pruneRound_def)
    with e1 e2 l1 l2 n1 n2 show ?thesis by simp
  next
    case False
    with pr r c obtain rows2 cols2 pruned3 where
      a: "arcPass (List.product (keys (rowMap st)) (keys (colMap st))) (rows1, cols1, pruned2)
            = Inr (rows2, cols2, pruned3)"
      by (auto simp: pruneRound_def split: sum.splits)
    with pr r c False have
      st': "st' = \<lparr>rowMap = rows2, colMap = cols2,
                      unsolvedRowCount = rowCount, unsolvedColCount = colCount\<rparr>"
      by (auto simp: pruneRound_def split: if_splits)
    note ea = arcPass_entries[OF a] and la = arcPass_length[OF a]
    from ea l1 n1 have m1: "\<forall>x < length (rowMap st). rows2 ! x = None
          \<longleftrightarrow> rowMap st ! x = None \<or> (\<exists>s. rowMap st ! x = Some s \<and> isLineSolved s)"
      by simp
    from ea l2 n2 have m2: "\<forall>y < length (colMap st). cols2 ! y = None
          \<longleftrightarrow> colMap st ! y = None \<or> (\<exists>s. colMap st ! y = Some s \<and> isLineSolved s)"
      by simp
    from st' e1 e2 l1 l2 ea la m1 m2 show ?thesis by simp
  qed
qed

lemma isLineSolved_single: "isLineSolved s \<Longrightarrow> l \<in> set s \<Longrightarrow> s = [l]"
  by (cases s) (auto simp: isLineSolved_def)

lemma solverRound_solved_inv:
  assumes inv: "solved_inv S w st b" and sr: "solverRound st b = (ys, b', Inr st')"
  shows "solved_inv S w st' b'"
proof -
  from inv have si: "solution_inv S w st" and lr: "length (rowMap st) = length S"
    and lc: "length (colMap st) = w" and f: "fits S b"
    and ur: "unsolvedRowCount st = int (live (rowMap st))"
    and uc: "unsolvedColCount st = int (live (colMap st))"
    by (simp_all add: solved_inv_def)
  from inv have old: "\<And>x y. x < length S \<Longrightarrow> y < w \<Longrightarrow> rowMap st ! x = None \<or> colMap st ! y = None
            \<Longrightarrow> cell b x y = cell S x y"
    unfolding solved_inv_def by blast
  from si have sh: "shaped S w" and hr: "holds (\<lambda>x. S ! x) (rowMap st)"
    and hc: "holds (board_column S) (colMap st)"
    by (simp_all add: solution_inv_def)
  from sr obtain rowMoves colMoves where ex: "extractMoves st = Inr (rowMoves, colMoves)"
    by (cases "extractMoves st") (auto simp: solverRound_def)
  note ag = extractMoves_agree[OF si ex]
  obtain ys1 b1 e1 where ap: "applyMoves rowMoves colMoves b = (ys1, b1, e1)"
    by (cases "applyMoves rowMoves colMoves b")
  from applyMoves_fits[OF f ag[THEN conjunct1] ag[THEN conjunct2] ap]
  have e1: "e1 = None" and f1: "fits S b1"
    and keep: "\<And>x y. cell b x y = cell S x y \<Longrightarrow> cell b1 x y = cell S x y"
    and moved: "\<And>m. m \<in> set rowMoves \<union> set colMoves
        \<Longrightarrow> cell b1 (tile_x m) (tile_y m) = cell S (tile_x m) (tile_y m)"
    by (auto simp: list_all_iff)
  from sr ex ap e1 have b': "b' = b1" and pr: "pruneRound st rowMoves colMoves = Inr st'"
    by (simp_all add: solverRound_def)
  note si' = pruneRound_keeps[OF si ag[THEN conjunct1] ag[THEN conjunct2] pr]
  note en = pruneRound_entries[OF pr]
  from ex have
    cr: "collectMoves (\<lambda>x solns. findMovesFromRow x (keys (colMap st)) solns) (values_of (rowMap st))
          = Inr rowMoves"
    and cc: "collectMoves (\<lambda>y solns. findMovesFromCol y (keys (rowMap st)) solns) (values_of (colMap st))
          = Inr colMoves"
    by (auto simp: extractMoves_def Let_def split: sum.splits)
  have cells: "cell b1 x y = cell S x y"
    if x: "x < length S" and y: "y < w" and n: "rowMap st' ! x = None \<or> colMap st' ! y = None"
    for x y
  proof (cases "rowMap st ! x = None \<or> colMap st ! y = None")
    case True
    from keep[OF old[OF x y True]] show ?thesis .
  next
    case False
    then obtain rs cs where rs: "rowMap st ! x = Some rs" and cs: "colMap st ! y = Some cs"
      by auto
    from x y lr lc rs cs have kx: "x \<in> set (keys (rowMap st))" and ky: "y \<in> set (keys (colMap st))"
      by (simp_all add: keys_set)
    from x y lr lc rs cs have vx: "(x, rs) \<in> set (values_of (rowMap st))"
      and vy: "(y, cs) \<in> set (values_of (colMap st))"
      by (simp_all add: values_of_set)
    from sh x have lx: "length (S ! x) = w" by (auto simp: shaped_def list_all_iff)
    have ly: "length (board_column S y) = length S" by (simp add: board_column_def)
    from n en x y lr lc rs cs consider "isLineSolved rs" | "isLineSolved cs" by auto
    then have "\<exists>v. Move x y v \<in> set rowMoves \<union> set colMoves"
    proof cases
      case 1
      from hr x lr rs have "S ! x \<in> set rs" by (auto simp: holds_iff)
      with 1 have "rs = [S ! x]" by (rule isLineSolved_single)
      with findValidMoves_single[of y "S ! x" "keys (colMap st)" "\<lambda>y n. Move x y n"] y lx ky
      obtain ms where "findMovesFromRow x (keys (colMap st)) rs = Inr ms"
        "Move x y (S ! x ! y) \<in> set ms"
        by (auto simp: findMovesFromRow_def)
      with collectMoves_mem[OF cr vx] show ?thesis by blast
    next
      case 2
      from hc y lc cs have "board_column S y \<in> set cs" by (auto simp: holds_iff)
      with 2 have "cs = [board_column S y]" by (rule isLineSolved_single)
      with findValidMoves_single[of x "board_column S y" "keys (rowMap st)" "\<lambda>x n. Move x y n"]
        x ly kx
      obtain ms where "findMovesFromCol y (keys (rowMap st)) cs = Inr ms"
        "Move x y (board_column S y ! x) \<in> set ms"
        by (auto simp: findMovesFromCol_def)
      with collectMoves_mem[OF cc vy] show ?thesis by blast
    qed
    then obtain v where "Move x y v \<in> set rowMoves \<union> set colMoves" ..
    from moved[OF this] show ?thesis by simp
  qed
  from si' en lr lc f1 ur uc cells b' show ?thesis
    by (simp add: solved_inv_def)
qed

lemma generateMoves_loop_solved:
  "solved_inv S w st b \<Longrightarrow> thrown (generateMoves_loop st b) = None
   \<Longrightarrow> final_board (generateMoves_loop st b) = S"
proof (induction st b rule: generateMoves_loop.induct)
  case (1 st b)
  note unfold = generateMoves_loop.simps[of st b]
  show ?case
  proof (cases "unsolvedRowCount st \<noteq> 0 \<and> unsolvedColCount st \<noteq> 0")
    case False
    from "1.prems"(1) have si: "solution_inv S w st" and lr: "length (rowMap st) = length S"
      and lc: "length (colMap st) = w" and f: "fits S b"
      and ur: "unsolvedRowCount st = int (live (rowMap st))"
      and uc: "unsolvedColCount st = int (live (colMap st))"
      by (simp_all add: solved_inv_def)
    from "1.prems"(1) have old: "\<And>x y. x < length S \<Longrightarrow> y < w
        \<Longrightarrow> rowMap st ! x = None \<or> colMap st ! y = None \<Longrightarrow> cell b x y = cell S x y"
      unfolding solved_inv_def by blast
    from si have sh: "shaped S w" by (simp add: solution_inv_def)
    have "cell b x y = cell S x y" if x: "x < length S" and y: "y < length (S ! x)" for x y
    proof -
      from sh x y have yw: "y < w" by (auto simp: shaped_def list_all_iff)
      from False ur uc consider "live (rowMap st) = 0" | "live (colMap st) = 0" by auto
      then have "rowMap st ! x = None \<or> colMap st ! y = None"
      proof cases
        case 1
        from live_0[OF 1] x lr show ?thesis by simp
      next
        case 2
        from live_0[OF 2] yw lc show ?thesis by simp
      qed
      from old[OF x yw this] show ?thesis .
    qed
    from fits_eq[OF f this] have "b = S" .
    with False show ?thesis unfolding unfold by auto
  next
    case True
    obtain ys b' z where sr: "solverRound st b = (ys, b', z)"
      by (cases "solverRound st b")
    show ?thesis
    proof (cases z)
      case (Inl e)
      with True sr "1.prems"(2) show ?thesis unfolding unfold by simp
    next
      case (Inr st')
      from solverRound_solved_inv[OF "1.prems"(1) sr[unfolded Inr]]
      have inv': "solved_inv S w st' b'" .
      from "1.prems"(2) True sr Inr have "thrown (generateMoves_loop st' b') = None"
        unfolding unfold by (simp add: Let_def)
      from "1.IH"[OF True sr[symmetric] refl Inr inv' this] True sr Inr
      show ?thesis unfolding unfold by (simp add: Let_def)
    qed
  qed
qed

lemma initialState_solved_inv:
  assumes sol: "is_solution rules S" and f: "fits S b"
  shows "solved_inv S (length (column rules)) (initialState rules) b"
proof -
  note si = initialState_inv[OF sol]
  from sol have "list_all2 realizes S (row rules)" by (simp add: is_solution_def)
  then have len: "length S = length (row rules)" by (rule list_all2_lengthD)
  have live_map: "live (map (\<lambda>r. Some (g r)) xs) = length xs" for g and xs :: "Rule list"
    by (induction xs) (simp_all add: live_sum)
  from si f len live_map show ?thesis
    by (simp add: solved_inv_def initialState_def Let_def)
qed

text \<open>
  Where the rules have a solution and the board given to \<open>generateMoves\<close> fits it (the
  solution's shape, every cell unknown or already right), a run that ends without an
  exception leaves exactly the solution on the board: the exit of the loop as soon as
  all rows or all columns are retired loses nothing.
\<close>

theorem generateMoves_solved:
  assumes "is_solution rules S" and "fits S b" and "thrown (generateMoves rules b) = None"
  shows "final_board (generateMoves rules b) = S"
  using generateMoves_loop_solved[OF initialState_solved_inv[OF assms(1,2)]] assms(3)
  by (simp add: generateMoves_def)

lemma fits_generateEmptyBoardFor:
  assumes sol: "is_solution rules S" and sq: "length (row rules) = length (column rules)"
  shows "fits S (generateEmptyBoardFor rules)"
proof -
  from sol have "list_all2 realizes S (row rules)"
    and sh: "list_all (\<lambda>r. length r = length (column rules)) S"
    by (simp_all add: is_solution_def)
  then have len: "length S = length (row rules)" by (simp add: list_all2_lengthD)
  from sh have "length (S ! x) = length (column rules)" if "x < length S" for x
    using that by (auto simp: list_all_iff)
  with len sq show ?thesis
    by (simp add: fits_iff generateEmptyBoardFor_def count_arr_def)
qed

text \<open>For \<open>solve\<close> the board fits when there are as many row clues as column clues.\<close>

theorem solve_square_solved:
  assumes sol: "is_solution rules S" and sq: "length (row rules) = length (column rules)"
    and res: "solve rules = Inr r" and sv: "solved r"
  shows "board r = S"
proof -
  let ?g = "generateMoves rules (generateEmptyBoardFor rules)"
  from res sv have "thrown ?g = None" "board r = final_board ?g"
    by (auto simp: solve_def Let_def split: option.splits js_error.splits)
  with generateMoves_solved[OF sol fits_generateEmptyBoardFor[OF sol sq]] show ?thesis by simp
qed

section \<open>What the generator throws\<close>

lemma collectMoves_each:
  "collectMoves f snap = Inr ms \<Longrightarrow> (i, s) \<in> set snap \<Longrightarrow> \<exists>ms'. f i s = Inr ms'"
proof (induction snap arbitrary: ms)
  case Nil
  then show ?case by simp
next
  case (Cons e snap)
  obtain j t where e: "e = (j, t)" by (cases e)
  from Cons.prems(1) e obtain ms1 ms2 where
    1: "f j t = Inr ms1" and 2: "collectMoves f snap = Inr ms2"
    by (auto split: sum.splits)
  from Cons.prems(2) e consider "(i, s) = (j, t)" | "(i, s) \<in> set snap" by auto
  then show ?case
  proof cases
    case 1
    with \<open>f j t = Inr ms1\<close> show ?thesis by auto
  next
    case 2
    from Cons.IH[OF \<open>collectMoves f snap = Inr ms2\<close> 2] show ?thesis .
  qed
qed

lemma retireLines_Inl:
  "retireLines d snap moves other st = Inl e \<Longrightarrow> \<exists>i s. (i, s) \<in> set snap \<and> isLineConflict s"
proof (induction snap arbitrary: st)
  case Nil
  then show ?case by simp
next
  case (Cons a snap)
  obtain i solns where a: "a = (i, solns)" by (cases a)
  obtain m uc pc where st: "st = (m, uc, pc)" by (cases st)
  show ?case
  proof (cases "isLineConflict solns")
    case True
    with a show ?thesis by auto
  next
    case False
    show ?thesis
    proof (cases "isLineSolved solns")
      case True
      with Cons.prems a st
      have "retireLines d snap moves other (m[i := None], uc - 1, pc + 1) = Inl e" by simp
      from Cons.IH[OF this] show ?thesis by auto
    next
      case ns: False
      obtain solns' pruned where p:
        "(case d of DimX \<Rightarrow> pruneRowByMoves solns (movesForRow i moves)
                  | DimY \<Rightarrow> pruneColByMoves solns (movesForCol i moves)) = (solns', pruned)"
        by (cases "(case d of DimX \<Rightarrow> pruneRowByMoves solns (movesForRow i moves)
                  | DimY \<Rightarrow> pruneColByMoves solns (movesForCol i moves))")
      from Cons.prems a st False ns p
      have "retireLines d snap moves other (m[i := Some solns'], uc, pc + pruned) = Inl e"
        by simp
      from Cons.IH[OF this] show ?thesis by auto
    qed
  qed
qed

lemma arcPass_Inl: "arcPass ps st = Inl e \<Longrightarrow> e = TypeError"
proof (induction ps arbitrary: st)
  case Nil
  then show ?case by simp
next
  case (Cons p ps)
  obtain x y where p: "p = (x, y)" by (cases p)
  obtain rm cm pc where st: "st = (rm, cm, pc)" by (cases st)
  show ?case
  proof (cases "lookup cm y")
    case None
    with Cons.prems p st show ?thesis by simp
  next
    case (Some cs)
    show ?thesis
    proof (cases "lookup rm x")
      case None
      with Cons.prems p st Some show ?thesis by simp
    next
      case rs: (Some rs)
      obtain rs' cs' pruned where pi: "pruneIntersection rs cs x y = (rs', cs', pruned)"
        by (cases "pruneIntersection rs cs x y")
      from Cons.prems p st Some rs pi
      have "arcPass ps (rm[x := Some rs'], cm[y := Some cs'], pc + pruned) = Inl e" by simp
      from Cons.IH[OF this] show ?thesis .
    qed
  qed
qed

lemma collectMoves_Inl:
  assumes "\<And>i s e. f i s = Inl e \<Longrightarrow> e = TypeError"
  shows "collectMoves f snap = Inl e \<Longrightarrow> e = TypeError"
proof (induction snap)
  case Nil
  then show ?case by simp
next
  case (Cons a snap)
  obtain i s where a: "a = (i, s)" by (cases a)
  show ?case
  proof (cases "f i s")
    case (Inl e')
    with Cons.prems a assms[OF Inl] show ?thesis by simp
  next
    case (Inr ms)
    with Cons.prems a have "collectMoves f snap = Inl e" by (simp split: sum.splits)
    then show ?thesis by (rule Cons.IH)
  qed
qed

lemma findValidMoves_Inl: "findValidMoves lines idx mapper = Inl e \<Longrightarrow> e = TypeError"
  by (cases lines) (simp_all add: findValidMoves_def)

lemma extractMoves_Inl:
  assumes "extractMoves st = Inl e"
  shows "e = TypeError"
proof -
  let ?fr = "\<lambda>x solns. findMovesFromRow x (keys (colMap st)) solns"
  let ?fc = "\<lambda>y solns. findMovesFromCol y (keys (rowMap st)) solns"
  have r: "collectMoves ?fr snap = Inl e' \<Longrightarrow> e' = TypeError" for snap e'
    by (rule collectMoves_Inl[of ?fr]) (auto simp: findMovesFromRow_def dest: findValidMoves_Inl)
  have c: "collectMoves ?fc snap = Inl e' \<Longrightarrow> e' = TypeError" for snap e'
    by (rule collectMoves_Inl[of ?fc]) (auto simp: findMovesFromCol_def dest: findValidMoves_Inl)
  show ?thesis
  proof (cases "collectMoves ?fr (values_of (rowMap st))")
    case (Inl e')
    with assms r[OF Inl] show ?thesis by (simp add: extractMoves_def Let_def)
  next
    case (Inr rowMoves)
    show ?thesis
    proof (cases "collectMoves ?fc (values_of (colMap st))")
      case (Inl e')
      with assms Inr c[OF Inl] show ?thesis by (simp add: extractMoves_def Let_def)
    next
      case cm: (Inr colMoves)
      with assms Inr show ?thesis by (simp add: extractMoves_def Let_def)
    qed
  qed
qed

lemma yieldMoves_thrown: "yieldMoves ms b = (ys, b', Some e) \<Longrightarrow> e = TypeError"
proof (induction ms arbitrary: b ys)
  case Nil
  then show ?case by simp
next
  case (Cons m ms)
  show ?case
  proof (cases "js_nth b (tile_x m)")
    case None
    with Cons.prems show ?thesis by simp
  next
    case (Some r)
    show ?thesis
    proof (cases "js_nth r (tile_y m) = Some 0")
      case False
      with Cons.prems Some have "yieldMoves ms b = (ys, b', Some e)" by simp
      from Cons.IH[OF this] show ?thesis .
    next
      case True
      obtain ys' b2 e2 where
        y: "yieldMoves ms (b[tile_x m := r[tile_y m := nxt m]]) = (ys', b2, e2)"
        by (cases "yieldMoves ms (b[tile_x m := r[tile_y m := nxt m]])")
      with Cons.prems Some True have "e2 = Some e" "b2 = b'" by simp_all
      with y Cons.IH show ?thesis by blast
    qed
  qed
qed

lemma extractMoves_nonempty:
  assumes "extractMoves st = Inr (rowMoves, colMoves)"
  shows "\<not> (\<exists>i s. (i, s) \<in> set (values_of (rowMap st)) \<and> isLineConflict s)"
    and "\<not> (\<exists>i s. (i, s) \<in> set (values_of (colMap st)) \<and> isLineConflict s)"
proof -
  from assms have
    r: "collectMoves (\<lambda>x solns. findMovesFromRow x (keys (colMap st)) solns) (values_of (rowMap st))
          = Inr rowMoves"
    and c: "collectMoves (\<lambda>y solns. findMovesFromCol y (keys (rowMap st)) solns) (values_of (colMap st))
          = Inr colMoves"
    by (auto simp: extractMoves_def Let_def split: sum.splits)
  show "\<not> (\<exists>i s. (i, s) \<in> set (values_of (rowMap st)) \<and> isLineConflict s)"
  proof
    assume "\<exists>i s. (i, s) \<in> set (values_of (rowMap st)) \<and> isLineConflict s"
    then obtain i s where m: "(i, s) \<in> set (values_of (rowMap st))" and "s = []"
      by (auto simp: isLineConflict_def)
    with collectMoves_each[OF r m] show False
      by (simp add: findMovesFromRow_def findValidMoves_def)
  qed
  show "\<not> (\<exists>i s. (i, s) \<in> set (values_of (colMap st)) \<and> isLineConflict s)"
  proof
    assume "\<exists>i s. (i, s) \<in> set (values_of (colMap st)) \<and> isLineConflict s"
    then obtain i s where m: "(i, s) \<in> set (values_of (colMap st))" and "s = []"
      by (auto simp: isLineConflict_def)
    with collectMoves_each[OF c m] show False
      by (simp add: findMovesFromCol_def findValidMoves_def)
  qed
qed

lemma pruneRound_Inl:
  assumes ex: "extractMoves st = Inr (rowMoves, colMoves)"
    and pr: "pruneRound st rowMoves colMoves = Inl e"
  shows "is_runtime_or_stagnation e"
proof -
  note ne = extractMoves_nonempty[OF ex]
  let ?r = "retireLines DimX (values_of (rowMap st)) colMoves (colMap st)
             (rowMap st, unsolvedRowCount st, 0)"
  from ne(1) retireLines_Inl[of DimX "values_of (rowMap st)"] obtain rows1 rowCount pruned1
    where r: "?r = Inr (rows1, rowCount, pruned1)"
    by (cases ?r) auto
  let ?c = "retireLines DimY (values_of (colMap st)) rowMoves rows1
                  (colMap st, unsolvedColCount st, pruned1)"
  from ne(2) retireLines_Inl[of DimY "values_of (colMap st)"] obtain cols1 colCount pruned2
    where c: "?c = Inr (cols1, colCount, pruned2)"
    by (cases ?c) auto
  show ?thesis
  proof (cases "pruned2 > 0")
    case True
    with pr r c show ?thesis by (simp add: pruneRound_def)
  next
    case False
    let ?a = "arcPass (List.product (keys (rowMap st)) (keys (colMap st))) (rows1, cols1, pruned2)"
    show ?thesis
    proof (cases ?a)
      case (Inl e')
      with pr r c False arcPass_Inl[OF Inl] show ?thesis
        by (simp add: pruneRound_def is_runtime_or_stagnation_def)
    next
      case (Inr res)
      obtain rows2 cols2 pruned3 where "res = (rows2, cols2, pruned3)" by (cases res)
      with pr r c False Inr show ?thesis
        by (auto simp: pruneRound_def is_runtime_or_stagnation_def split: if_splits)
    qed
  qed
qed

lemma solverRound_Inl:
  assumes "solverRound st b = (ys, b', Inl e)"
  shows "is_runtime_or_stagnation e"
proof (cases "extractMoves st")
  case (Inl e')
  with assms extractMoves_Inl[OF Inl] show ?thesis
    by (simp add: solverRound_def is_runtime_or_stagnation_def)
next
  case (Inr mv)
  obtain rowMoves colMoves where mv: "mv = (rowMoves, colMoves)" by (cases mv)
  obtain ys1 b1 e1 where ap: "applyMoves rowMoves colMoves b = (ys1, b1, e1)"
    by (cases "applyMoves rowMoves colMoves b")
  show ?thesis
  proof (cases e1)
    case None
    with assms Inr mv ap have "pruneRound st rowMoves colMoves = Inl e"
      by (simp add: solverRound_def)
    from pruneRound_Inl[OF Inr[unfolded mv] this] show ?thesis .
  next
    case (Some err)
    with assms Inr mv ap have e: "e = err" by (simp add: solverRound_def)
    obtain ys2 b2 e2 where y1: "yieldMoves rowMoves b = (ys2, b2, e2)"
      by (cases "yieldMoves rowMoves b")
    have "err = TypeError"
    proof (cases e2)
      case s2: (Some err2)
      with ap y1 Some have "err2 = err" by (simp add: applyMoves_def)
      with yieldMoves_thrown[OF y1[unfolded s2]] show ?thesis by simp
    next
      case None
      obtain ys3 b3 e3 where y2: "yieldMoves colMoves b2 = (ys3, b3, e3)"
        by (cases "yieldMoves colMoves b2")
      with ap y1 None Some have "e3 = Some err" by (simp add: applyMoves_def)
      with yieldMoves_thrown[of colMoves b2 ys3 b3 err] y2 show ?thesis by simp
    qed
    with e show ?thesis by (simp add: is_runtime_or_stagnation_def)
  qed
qed

lemma generateMoves_loop_thrown:
  "thrown (generateMoves_loop st b) = Some e \<Longrightarrow> is_runtime_or_stagnation e"
proof (induction st b rule: generateMoves_loop.induct)
  case (1 st b)
  note unfold = generateMoves_loop.simps[of st b]
  show ?case
  proof (cases "unsolvedRowCount st \<noteq> 0 \<and> unsolvedColCount st \<noteq> 0")
    case False
    with "1.prems" show ?thesis unfolding unfold by auto
  next
    case True
    obtain ys b' z where sr: "solverRound st b = (ys, b', z)"
      by (cases "solverRound st b")
    show ?thesis
    proof (cases z)
      case (Inl e')
      with True sr "1.prems" have "e' = e" unfolding unfold by simp
      with solverRound_Inl[OF sr[unfolded Inl]] show ?thesis by simp
    next
      case (Inr st')
      from "1.prems" True sr Inr have "thrown (generateMoves_loop st' b') = Some e"
        unfolding unfold by (simp add: Let_def)
      from "1.IH"[OF True sr[symmetric] refl Inr this] show ?thesis .
    qed
  qed
qed

text \<open>
  Whatever \<open>generateMoves\<close> throws is a \<open>TypeError\<close> or the "Ran out of moves" error:
  the errors "Row ... has no solutions" and "Column ... has no solutions" are never
  thrown, because a round reads \<open>lines[0].length\<close> of every candidate set before it
  tests any of them for emptiness.
\<close>

lemma generateMoves_thrown:
  "thrown (generateMoves rules b) = Some e \<Longrightarrow> is_runtime_or_stagnation e"
  unfolding generateMoves_def by (rule generateMoves_loop_thrown)

section \<open>Where the code departs from its documentation\<close>

text \<open>
  C1. \<open>solve\<close> reports \<open>solved = true\<close> with a board that does not satisfy the clues.
  First input: one row with the clue "one tile of colour 1", two columns with the clues
  "one tile of colour 1" and "nothing"; the rules have the solution \<open>[[1, - 1]]\<close>, but
  the board is created with two rows of one cell and \<open>[[1], [0]]\<close> is returned as solved.
  Second input: one row with the clue "one tile of colour 1" and one column with the
  empty clue; the rules have no solution, but the row is retired as solved in the
  first round, before the column's blank could contradict it, and \<open>[[1]]\<close> is returned
  as solved.
\<close>

theorem solve_solved_board_violates_clues:
  "solve \<lparr>column = [[RuleEntry 1 1], []], row = [[RuleEntry 1 1]]\<rparr>
     = Inr \<lparr>board = [[1], [0]], solved = True, unsolved_rows = [], unsolved_columns = []\<rparr>
   \<and> is_solution \<lparr>column = [[RuleEntry 1 1], []], row = [[RuleEntry 1 1]]\<rparr> [[1, - 1]]
   \<and> \<not> is_solution \<lparr>column = [[RuleEntry 1 1], []], row = [[RuleEntry 1 1]]\<rparr> [[1], [0]]
   \<and> solve \<lparr>column = [[]], row = [[RuleEntry 1 1]]\<rparr>
     = Inr \<lparr>board = [[1]], solved = True, unsolved_rows = [], unsolved_columns = []\<rparr>
   \<and> \<not> is_solution \<lparr>column = [[]], row = [[RuleEntry 1 1]]\<rparr> [[1]]
   \<and> \<not> realizes (board_column [[1]] 0) []"
  by code_simp

text \<open>
  C2. On a board that is not square, \<open>solve\<close> reports \<open>solved = true\<close> with an unknown
  cell left: one row and two columns, all clues empty. The board is created with two
  rows of one cell; the move for row 0, column 1 finds \<open>board[0][1]\<close> undefined and is
  skipped, and the cell \<open>board[1][0]\<close> is never addressed.
\<close>

theorem solve_leaves_unknown_cell:
  "solve \<lparr>column = [[], []], row = [[]]\<rparr>
     = Inr \<lparr>board = [[- 1], [0]], solved = True, unsolved_rows = [], unsolved_columns = []\<rparr>"
  by code_simp

text \<open>
  C3. \<open>generateEmptyBoardFor\<close> creates as many rows as there are column clues, each with
  as many cells as there are row clues: for one row clue and two column clues the board
  has two rows of one cell, not one row of two cells.
\<close>

theorem generateEmptyBoardFor_transposed:
  "generateEmptyBoardFor \<lparr>column = [[], []], row = [[]]\<rparr> = [[0], [0]]
   \<and> length (generateEmptyBoardFor \<lparr>column = [[], []], row = [[]]\<rparr>)
       \<noteq> length (row \<lparr>column = [[], []], row = [[]]\<rparr>)"
  by code_simp

lemma generateEmptyBoardFor_shape:
  "length (generateEmptyBoardFor rules) = length (column rules)
   \<and> list_all (\<lambda>r. length r = length (row rules)) (generateEmptyBoardFor rules)"
  by (simp add: generateEmptyBoardFor_def count_arr_def list_all_iff)

text \<open>
  C4. A clue that cannot fit its line does not end in the structured error: with a first
  row of length 3 and the clue "two of colour 1, two of colour 1" the candidate set of
  row 0 is empty, and the first round reads \<open>lines[0].length\<close> of it, a \<open>TypeError\<close>,
  before the check \<open>isLineConflict\<close> is reached. \<open>solve\<close> rethrows it and returns no
  \<open>Solution\<close>. (By \<open>generateMoves_thrown\<close> the structured error for an empty
  candidate set is never thrown at all.)
\<close>

theorem solve_unfit_clue_throws_TypeError:
  "generateLineSolns 3 [RuleEntry 2 1, RuleEntry 2 1] = []
   \<and> solve \<lparr>column = [[], [], []], row = [[RuleEntry 2 1, RuleEntry 2 1], [], []]\<rparr>
       = Inl TypeError"
  by code_simp

text \<open>
  C7. The loop always ends (\<open>generateMoves_loop\<close> is a total function, and
  \<open>generateMoves_rounds\<close> bounds its rounds by the candidate mass), but not always
  solved or with a \<open>SolveError\<close>: for one row of one cell with the clue "two of colour
  1" the only round ends in a \<open>TypeError\<close>.
\<close>

theorem generateMoves_ends_in_TypeError:
  "generateMoves \<lparr>column = [[]], row = [[RuleEntry 2 1]]\<rparr> [[0]]
     = \<lparr>yielded = [], final_board = [[0]], thrown = Some TypeError, rounds = 1\<rparr>"
  by code_simp

end
